theory Spec2Isabelle
  imports Complex_Main "HOL-Library.Sublist"
begin

section \<open>Power method of \<^verbatim>\<open>src/week3/main.py\<close>\<close>

text \<open>
  The routine \<^verbatim>\<open>power_method(A, x0, eps, max_iter)\<close> works on numpy arrays of
  double-precision numbers. The embedding keeps what the claims depend on:
  \<^item> the shape of every array, so that each \<^verbatim>\<open>ValueError\<close> numpy or the routine itself
    raises is a branch of the model;
  \<^item> the special values of IEEE 754 arithmetic (infinities and NaN), so that a division
    by zero yields what numpy yields instead of an exception;
  \<^item> the order of the operations of the source, with ghost counters for the loop
    iterations, the matrix-vector products and the norms that were evaluated;
  \<^item> for the effect on the caller's arrays, a second embedding over a store of buffers,
    proved to compute the same values as the first.

  Finite numbers are idealised: they are real numbers, computed exactly. A double
  rounds every result, overflows to an infinity beyond about \<open>1.8e308\<close> and underflows to
  zero below about \<open>4.9e-324\<close>, and an array of integers wraps around; none of this is in
  the model. Zero carries no sign either: a division of a non-zero number by zero gives
  the infinity with the sign of the numerator, what IEEE 754 gives for the positive
  zero. The theorems below are therefore about shapes, errors, the order of the
  operations and the special values, and about numbers only where the source computes
  the same number from the same operands again. How close a computed norm is to 1 is a
  matter of the rounding of doubles and is not stated here.
\<close>

subsection \<open>Numbers\<close>

datatype fl = Fin real | PInf | NInf | NaN

fun is_fin :: "fl \<Rightarrow> bool" where
  "is_fin (Fin a) = True"
| "is_fin PInf = False"
| "is_fin NInf = False"
| "is_fin NaN = False"

fun fneg :: "fl \<Rightarrow> fl" where
  "fneg (Fin a) = Fin (- a)"
| "fneg PInf = NInf"
| "fneg NInf = PInf"
| "fneg NaN = NaN"

fun fadd :: "fl \<Rightarrow> fl \<Rightarrow> fl" where
  "fadd (Fin a) (Fin b) = Fin (a + b)"
| "fadd (Fin a) PInf = PInf"
| "fadd (Fin a) NInf = NInf"
| "fadd PInf (Fin b) = PInf"
| "fadd PInf PInf = PInf"
| "fadd PInf NInf = NaN"
| "fadd NInf (Fin b) = NInf"
| "fadd NInf PInf = NaN"
| "fadd NInf NInf = NInf"
| "fadd NaN y = NaN"
| "fadd x NaN = NaN"

definition fsub :: "fl \<Rightarrow> fl \<Rightarrow> fl" where
  "fsub x y = fadd x (fneg y)"

fun fmul :: "fl \<Rightarrow> fl \<Rightarrow> fl" where
  "fmul (Fin a) (Fin b) = Fin (a * b)"
| "fmul (Fin a) PInf = (if a = 0 then NaN else if 0 < a then PInf else NInf)"
| "fmul (Fin a) NInf = (if a = 0 then NaN else if 0 < a then NInf else PInf)"
| "fmul PInf (Fin b) = (if b = 0 then NaN else if 0 < b then PInf else NInf)"
| "fmul NInf (Fin b) = (if b = 0 then NaN else if 0 < b then NInf else PInf)"
| "fmul PInf PInf = PInf"
| "fmul PInf NInf = NInf"
| "fmul NInf PInf = NInf"
| "fmul NInf NInf = PInf"
| "fmul NaN y = NaN"
| "fmul x NaN = NaN"

fun fdiv :: "fl \<Rightarrow> fl \<Rightarrow> fl" where
  "fdiv (Fin a) (Fin b) =
     (if b \<noteq> 0 then Fin (a / b)
      else if a = 0 then NaN else if 0 < a then PInf else NInf)"
| "fdiv (Fin a) PInf = Fin 0"
| "fdiv (Fin a) NInf = Fin 0"
| "fdiv PInf (Fin b) = (if 0 \<le> b then PInf else NInf)"
| "fdiv NInf (Fin b) = (if 0 \<le> b then NInf else PInf)"
| "fdiv PInf PInf = NaN"
| "fdiv PInf NInf = NaN"
| "fdiv NInf PInf = NaN"
| "fdiv NInf NInf = NaN"
| "fdiv NaN y = NaN"
| "fdiv x NaN = NaN"

fun fsqrt :: "fl \<Rightarrow> fl" where
  "fsqrt (Fin a) = (if 0 \<le> a then Fin (sqrt a) else NaN)"
| "fsqrt PInf = PInf"
| "fsqrt NInf = NaN"
| "fsqrt NaN = NaN"

text \<open>The comparison \<^verbatim>\<open><\<close>: false as soon as one side is NaN.\<close>

fun fless :: "fl \<Rightarrow> fl \<Rightarrow> bool" where
  "fless (Fin a) (Fin b) = (a < b)"
| "fless (Fin a) PInf = True"
| "fless (Fin a) NInf = False"
| "fless PInf y = False"
| "fless NInf (Fin b) = True"
| "fless NInf PInf = True"
| "fless NInf NInf = False"
| "fless x NaN = False"
| "fless NaN y = False"

text \<open>The maximum of two numbers as \<^verbatim>\<open>np.max\<close> takes it: a NaN on either side wins.\<close>

definition fmaximum :: "fl \<Rightarrow> fl \<Rightarrow> fl" where
  "fmaximum x y = (if x = NaN \<or> y = NaN then NaN else if fless x y then y else x)"

fun fsum :: "fl list \<Rightarrow> fl" where
  "fsum [] = Fin 0"
| "fsum (x # xs) = fadd x (fsum xs)"

subsection \<open>Arrays and the numpy operations the routine calls\<close>

text \<open>
  An array is its shape and its elements in row-major order. Every error below is a
  \<^verbatim>\<open>ValueError\<close> in Python: the first two are raised by \<^verbatim>\<open>power_method\<close> itself (lines
  35 and 41), the other three by numpy (\<^verbatim>\<open>@\<close> on operands whose core dimensions differ,
  an elementwise operation on shapes that do not broadcast, \<^verbatim>\<open>np.max\<close> of an array
  without elements).
\<close>

record ndarray =
  shape :: "nat list"
  data :: "fl list"

datatype error =
  ANot2D | X0BadShape | MatmulMismatch | BroadcastMismatch | ZeroSizeMax

definition np_ones :: "nat \<Rightarrow> ndarray" where
  "np_ones n = \<lparr>shape = [n], data = replicate n (Fin 1)\<rparr>"

text \<open>\<^verbatim>\<open>np.squeeze\<close> drops every axis of extent 1 and keeps the elements.\<close>

definition np_squeeze :: "ndarray \<Rightarrow> ndarray" where
  "np_squeeze a = a\<lparr>shape := filter (\<lambda>d. d \<noteq> 1) (shape a)\<rparr>"

definition rows :: "nat \<Rightarrow> nat \<Rightarrow> fl list \<Rightarrow> fl list list" where
  "rows m n xs = map (\<lambda>i. take n (drop (i * n) xs)) [0..<m]"

definition dot :: "fl list \<Rightarrow> fl list \<Rightarrow> fl" where
  "dot r x = fsum (map2 fmul r x)"

text \<open>
  \<^verbatim>\<open>A @ x\<close> for a two-dimensional \<open>A\<close> and a one-dimensional \<open>x\<close>, the only case the
  routine reaches: the second extent of \<open>A\<close> must be the length of \<open>x\<close>.
\<close>

definition matmul :: "ndarray \<Rightarrow> ndarray \<Rightarrow> error + ndarray" where
  "matmul A x =
     (if length (shape A) = 2 \<and> length (shape x) = 1 \<and> shape A ! 1 = shape x ! 0
      then Inr \<lparr>shape = [shape A ! 0],
                data = map (\<lambda>r. dot r (data x)) (rows (shape A ! 0) (shape A ! 1) (data A))\<rparr>
      else Inl MatmulMismatch)"

text \<open>
  An elementwise operation on two one-dimensional arrays, with numpy's broadcasting:
  equal lengths, or one of the two of length 1, which is then repeated.
\<close>

definition stretch :: "nat \<Rightarrow> fl list \<Rightarrow> fl list" where
  "stretch n xs = concat (replicate n xs)"

definition elementwise :: "(fl \<Rightarrow> fl \<Rightarrow> fl) \<Rightarrow> ndarray \<Rightarrow> ndarray \<Rightarrow> error + ndarray" where
  "elementwise f u v =
     (if length (shape u) = 1 \<and> length (shape v) = 1 then
        (let a = shape u ! 0; b = shape v ! 0 in
         if a = b then Inr \<lparr>shape = [a], data = map2 f (data u) (data v)\<rparr>
         else if a = 1 then Inr \<lparr>shape = [b], data = map2 f (stretch b (data u)) (data v)\<rparr>
         else if b = 1 then Inr \<lparr>shape = [a], data = map2 f (data u) (stretch a (data v))\<rparr>
         else Inl BroadcastMismatch)
      else Inl BroadcastMismatch)"

definition divide_scalar :: "ndarray \<Rightarrow> fl \<Rightarrow> ndarray" where
  "divide_scalar y s = y\<lparr>data := map (\<lambda>v. fdiv v s) (data y)\<rparr>"

text \<open>\<^verbatim>\<open>np.linalg.norm\<close> of a vector: the square root of the sum of the squares.\<close>

definition norm2 :: "ndarray \<Rightarrow> fl" where
  "norm2 x = fsqrt (fsum (map (\<lambda>v. fmul v v) (data x)))"

definition np_max :: "ndarray \<Rightarrow> error + fl" where
  "np_max r = (case data r of [] \<Rightarrow> Inl ZeroSizeMax | v # vs \<Rightarrow> Inr (foldl fmaximum v vs))"

subsection \<open>The routine\<close>

text \<open>
  Ghost state: how many times the loop body was entered, how many products
  \<^verbatim>\<open>A @ x\<close> and how many norms were evaluated, and the value of \<^verbatim>\<open>error\<close> in each
  iteration that computed it, oldest first. The source keeps none of them; they let the
  theorems speak about what happened before a result or an error.
\<close>

record counters =
  iters :: nat
  matvecs :: nat
  norms :: nat
  errs :: "fl list"

definition c0 :: counters where
  "c0 = \<lparr>iters = 0, matvecs = 0, norms = 0, errs = []\<rparr>"

text \<open>Lines 36 to 41: the default starting vector, or the squeezed one that was given.\<close>

definition init_x0 :: "ndarray \<Rightarrow> ndarray option \<Rightarrow> error + ndarray" where
  "init_x0 A x0 =
     (case x0 of
        None \<Rightarrow> Inr (np_ones (shape A ! 1))
      | Some v \<Rightarrow>
          (let x = np_squeeze v in
           if length (shape x) \<noteq> 1 then Inl X0BadShape else Inr x))"

text \<open>
  Lines 44 to 50: \<^verbatim>\<open>for _ in range(max_iter)\<close>, with the number of iterations left as
  the first argument that decreases.
\<close>

fun iterate :: "nat \<Rightarrow> ndarray \<Rightarrow> fl \<Rightarrow> ndarray \<Rightarrow> counters \<Rightarrow> (error + ndarray) \<times> counters" where
  "iterate 0 A eps x_i c = (Inr x_i, c)"
| "iterate (Suc k) A eps x_i c =
     (let c1 = c\<lparr>iters := iters c + 1\<rparr> in
      case matmul A x_i of
        Inl e \<Rightarrow> (Inl e, c1)
      | Inr y_i \<Rightarrow>
          (let c2 = c1\<lparr>matvecs := matvecs c1 + 1\<rparr>;
               x_ip1 = divide_scalar y_i (norm2 y_i);
               c3 = c2\<lparr>norms := norms c2 + 1\<rparr> in
           case elementwise fsub x_ip1 x_i of
             Inl e \<Rightarrow> (Inl e, c3)
           | Inr d \<Rightarrow>
               (let err = norm2 d;
                    c4 = c3\<lparr>norms := norms c3 + 1, errs := errs c3 @ [err]\<rparr> in
                if fless err eps then (Inr x_ip1, c4)
                else iterate k A eps x_ip1 c4)))"

text \<open>Lines 52 and 53: the eigenvalue from a product of its own, and the pair.\<close>

definition rayleigh_max :: "ndarray \<Rightarrow> ndarray \<Rightarrow> counters \<Rightarrow> (error + fl \<times> ndarray) \<times> counters" where
  "rayleigh_max A x_i c =
     (case matmul A x_i of
        Inl e \<Rightarrow> (Inl e, c)
      | Inr q \<Rightarrow>
          (let c1 = c\<lparr>matvecs := matvecs c + 1\<rparr> in
           case elementwise fdiv q x_i of
             Inl e \<Rightarrow> (Inl e, c1)
           | Inr r \<Rightarrow>
               (case np_max r of
                  Inl e \<Rightarrow> (Inl e, c1)
                | Inr eigenvalue \<Rightarrow> (Inr (eigenvalue, x_i), c1))))"

text \<open>
  The whole routine. \<^verbatim>\<open>max_iter\<close> is a Python integer: \<^verbatim>\<open>range\<close> of a negative number
  is empty, as \<open>nat\<close> of it is 0.
\<close>

definition power_method_st ::
  "ndarray \<Rightarrow> ndarray option \<Rightarrow> fl \<Rightarrow> int \<Rightarrow> (error + fl \<times> ndarray) \<times> counters" where
  "power_method_st A x0 eps max_iter =
     (if length (shape A) \<noteq> 2 then (Inl ANot2D, c0)
      else
        case init_x0 A x0 of
          Inl e \<Rightarrow> (Inl e, c0)
        | Inr x \<Rightarrow>
            (case iterate (nat max_iter) A eps x c0 of
               (Inl e, c) \<Rightarrow> (Inl e, c)
             | (Inr x_i, c) \<Rightarrow> rayleigh_max A x_i c))"

definition power_method :: "ndarray \<Rightarrow> ndarray option \<Rightarrow> fl \<Rightarrow> int \<Rightarrow> error + fl \<times> ndarray" where
  "power_method A x0 eps max_iter = fst (power_method_st A x0 eps max_iter)"

text \<open>What one complete iteration adds to the ghost state.\<close>

definition tick :: "counters \<Rightarrow> fl \<Rightarrow> counters" where
  "tick c err = c\<lparr>iters := iters c + 1, matvecs := matvecs c + 1, norms := norms c + 2,
                   errs := errs c @ [err]\<rparr>"

text \<open>The vector of \<open>n\<close> NaN, which a division of zeros by a zero norm produces.\<close>

definition nan_vector :: "nat \<Rightarrow> ndarray" where
  "nan_vector n = \<lparr>shape = [n], data = replicate n NaN\<rparr>"

text \<open>The sum of the squares of real numbers, for the norm of a finite vector.\<close>

definition sumsq :: "real list \<Rightarrow> real" where
  "sumsq as = sum_list (map (\<lambda>a. a * a) as)"

text \<open>
  A starting vector that fits a matrix of dimension \<open>n\<close>: none (the default of \<open>n\<close> ones
  is used), or an array with \<open>n\<close> elements that squeezes to one axis of extent \<open>n\<close>.
\<close>

definition x0_fits :: "nat \<Rightarrow> ndarray option \<Rightarrow> bool" where
  "x0_fits n x0 =
     (case x0 of None \<Rightarrow> True
      | Some v \<Rightarrow> shape (np_squeeze v) = [n] \<and> length (data v) = n)"

text \<open>
  The eigenvalue as the specification words it, to compare with line 52: the maximum of
  the ratios \<open>q[i] / x[i]\<close> over the components with \<open>x[i] \<noteq> 0\<close> only.
\<close>

definition masked_ratios :: "ndarray \<Rightarrow> ndarray \<Rightarrow> fl list" where
  "masked_ratios q x =
     map (\<lambda>(a, b). fdiv a b) (filter (\<lambda>(a, b). b \<noteq> Fin 0) (zip (data q) (data x)))"

definition masked_max :: "ndarray \<Rightarrow> ndarray \<Rightarrow> error + fl" where
  "masked_max q x =
     (case masked_ratios q x of [] \<Rightarrow> Inl ZeroSizeMax | v # vs \<Rightarrow> Inr (foldl fmaximum v vs))"

subsection \<open>The routine over a store of buffers\<close>

text \<open>
  For the effect of a call on the arrays of its caller the arrays are no longer values.
  A numpy array is an object that refers to a buffer of elements and has a shape of its
  own; several arrays can share a buffer, as the view that \<^verbatim>\<open>np.squeeze\<close> returns shares
  the buffer of its argument. The store holds the buffers, by address. Each operator of
  the source (\<^verbatim>\<open>@\<close>, \<^verbatim>\<open>/\<close>, \<^verbatim>\<open>-\<close>, \<^verbatim>\<open>np.ones\<close>) puts its result into a new buffer, and an
  assignment such as \<^verbatim>\<open>x_i = x_ip1\<close> binds a name to an existing array. The source has
  no augmented assignment, no indexed assignment and no \<^verbatim>\<open>out=\<close> argument, so the model
  has no operation that writes into an existing buffer.
\<close>

type_synonym addr = nat

record aref =
  buf :: addr
  dims :: "nat list"

type_synonym store = "fl list list"

definition load :: "store \<Rightarrow> aref \<Rightarrow> ndarray" where
  "load s r = \<lparr>shape = dims r, data = s ! buf r\<rparr>"

definition alloc :: "ndarray \<Rightarrow> store \<Rightarrow> aref \<times> store" where
  "alloc a s = (\<lparr>buf = length s, dims = shape a\<rparr>, s @ [data a])"

definition alloc_result :: "error + ndarray \<Rightarrow> store \<Rightarrow> (error + aref) \<times> store" where
  "alloc_result res s =
     (case res of
        Inl e \<Rightarrow> (Inl e, s)
      | Inr a \<Rightarrow> (case alloc a s of (r, s') \<Rightarrow> (Inr r, s')))"

definition squeeze_view :: "aref \<Rightarrow> aref" where
  "squeeze_view r = r\<lparr>dims := filter (\<lambda>d. d \<noteq> 1) (dims r)\<rparr>"

fun iterate_h :: "nat \<Rightarrow> aref \<Rightarrow> fl \<Rightarrow> aref \<Rightarrow> store \<Rightarrow> (error + aref) \<times> store" where
  "iterate_h 0 A eps x_i s = (Inr x_i, s)"
| "iterate_h (Suc k) A eps x_i s =
     (case alloc_result (matmul (load s A) (load s x_i)) s of
        (Inl e, s1) \<Rightarrow> (Inl e, s1)
      | (Inr y_i, s1) \<Rightarrow>
          (case alloc (divide_scalar (load s1 y_i) (norm2 (load s1 y_i))) s1 of
             (x_ip1, s2) \<Rightarrow>
               (case alloc_result (elementwise fsub (load s2 x_ip1) (load s2 x_i)) s2 of
                  (Inl e, s3) \<Rightarrow> (Inl e, s3)
                | (Inr d, s3) \<Rightarrow>
                    (let err = norm2 (load s3 d) in
                     if fless err eps then (Inr x_ip1, s3)
                     else iterate_h k A eps x_ip1 s3))))"

definition rayleigh_max_h :: "aref \<Rightarrow> aref \<Rightarrow> store \<Rightarrow> (error + fl \<times> aref) \<times> store" where
  "rayleigh_max_h A x_i s =
     (case alloc_result (matmul (load s A) (load s x_i)) s of
        (Inl e, s1) \<Rightarrow> (Inl e, s1)
      | (Inr q, s1) \<Rightarrow>
          (case alloc_result (elementwise fdiv (load s1 q) (load s1 x_i)) s1 of
             (Inl e, s2) \<Rightarrow> (Inl e, s2)
           | (Inr r, s2) \<Rightarrow>
               (case np_max (load s2 r) of
                  Inl e \<Rightarrow> (Inl e, s2)
                | Inr eigenvalue \<Rightarrow> (Inr (eigenvalue, x_i), s2))))"

definition init_x0_h :: "aref \<Rightarrow> aref option \<Rightarrow> store \<Rightarrow> (error + aref) \<times> store" where
  "init_x0_h A x0 s =
     (case x0 of
        None \<Rightarrow> (case alloc (np_ones (dims A ! 1)) s of (r, s') \<Rightarrow> (Inr r, s'))
      | Some v \<Rightarrow>
          (let x = squeeze_view v in
           if length (dims x) \<noteq> 1 then (Inl X0BadShape, s) else (Inr x, s)))"

definition power_method_h ::
  "aref \<Rightarrow> aref option \<Rightarrow> fl \<Rightarrow> int \<Rightarrow> store \<Rightarrow> (error + fl \<times> aref) \<times> store" where
  "power_method_h A x0 eps max_iter s =
     (if length (dims A) \<noteq> 2 then (Inl ANot2D, s)
      else
        case init_x0_h A x0 s of
          (Inl e, s1) \<Rightarrow> (Inl e, s1)
        | (Inr x, s1) \<Rightarrow>
            (case iterate_h (nat max_iter) A eps x s1 of
               (Inl e, s2) \<Rightarrow> (Inl e, s2)
             | (Inr x_i, s2) \<Rightarrow> rayleigh_max_h A x_i s2))"

text \<open>The value a call over the store returns, with the returned array read from it.\<close>

definition read_result :: "(error + fl \<times> aref) \<times> store \<Rightarrow> error + fl \<times> ndarray" where
  "read_result p =
     (case p of
        (Inl e, s) \<Rightarrow> Inl e
      | (Inr (ev, r), s) \<Rightarrow> Inr (ev, load s r))"

section \<open>Auxiliary facts\<close>

subsection \<open>Shapes and errors of the array operations\<close>

lemma shape_one: "length s = 1 \<Longrightarrow> s ! 0 = n \<Longrightarrow> s = [n]"
  by (cases s) auto

lemma matmul_Inl: "matmul A x = Inl e \<Longrightarrow> e = MatmulMismatch"
  by (auto simp: matmul_def split: if_splits)

lemma matmul_Inr:
  assumes "matmul A x = Inr y"
  shows "shape y = [shape A ! 0]" and "length (data y) = shape A ! 0"
    and "length (shape A) = 2" and "shape x = [shape A ! 1]"
  using assms by (auto simp: matmul_def rows_def shape_one split: if_splits)

lemma matmul_ok:
  "length (shape A) = 2 \<Longrightarrow> shape x = [shape A ! 1] \<Longrightarrow> \<exists>y. matmul A x = Inr y"
  by (simp add: matmul_def)

lemma matmul_mismatch:
  "shape x = [k] \<Longrightarrow> k \<noteq> shape A ! 1 \<Longrightarrow> matmul A x = Inl MatmulMismatch"
  by (simp add: matmul_def)

lemma elementwise_Inl: "elementwise f u v = Inl e \<Longrightarrow> e = BroadcastMismatch"
  by (auto simp: elementwise_def Let_def split: if_splits)

lemma elementwise_same:
  "shape u = [n] \<Longrightarrow> shape v = [n] \<Longrightarrow>
   elementwise f u v = Inr \<lparr>shape = [n], data = map2 f (data u) (data v)\<rparr>"
  by (simp add: elementwise_def)

lemma shape_divide_scalar [simp]: "shape (divide_scalar y s) = shape y"
  by (simp add: divide_scalar_def)

lemma data_divide_scalar [simp]: "data (divide_scalar y s) = map (\<lambda>v. fdiv v s) (data y)"
  by (simp add: divide_scalar_def)

lemma iterate_Inl:
  "iterate k A eps x c = (Inl e, c') \<Longrightarrow> e = MatmulMismatch \<or> e = BroadcastMismatch"
proof (induction k arbitrary: x c)
  case 0
  then show ?case by simp
next
  case (Suc k)
  then show ?case
    by (auto simp: Let_def split: sum.splits if_splits dest: matmul_Inl elementwise_Inl)
qed



lemma iterate_SucE:
  assumes "iterate (Suc k) A eps x c = (Inr x', c')"
  obtains y d where "matmul A x = Inr y"
    and "elementwise fsub (divide_scalar y (norm2 y)) x = Inr d"
    and "fless (norm2 d) eps \<and> x' = divide_scalar y (norm2 y) \<and> c' = tick c (norm2 d) \<or>
         \<not> fless (norm2 d) eps \<and>
           iterate k A eps (divide_scalar y (norm2 y)) (tick c (norm2 d)) = (Inr x', c')"
  using assms
  by (auto simp: Let_def tick_def split: sum.splits if_splits)

lemma iterate_Inr:
  "iterate k A eps x c = (Inr x', c') \<Longrightarrow> 0 < k \<Longrightarrow>
   \<exists>xp y. matmul A xp = Inr y \<and> x' = divide_scalar y (norm2 y)"
proof (induction k arbitrary: x c)
  case 0
  then show ?case by simp
next
  case (Suc k)
  from Suc.prems(1) show ?case
  proof (rule iterate_SucE)
    fix y d
    assume y: "matmul A x = Inr y"
      and "fless (norm2 d) eps \<and> x' = divide_scalar y (norm2 y) \<and> c' = tick c (norm2 d) \<or>
         \<not> fless (norm2 d) eps \<and>
           iterate k A eps (divide_scalar y (norm2 y)) (tick c (norm2 d)) = (Inr x', c')"
    then consider "x' = divide_scalar y (norm2 y)"
      | "iterate k A eps (divide_scalar y (norm2 y)) (tick c (norm2 d)) = (Inr x', c')"
      by blast
    then show ?thesis
    proof cases
      case 1
      with y show ?thesis by blast
    next
      case 2
      show ?thesis
      proof (cases k)
        case 0
        with 2 y show ?thesis by auto
      next
        case (Suc j)
        with 2 Suc.IH show ?thesis by blast
      qed
    qed
  qed
qed

lemma iterate_counters:
  "iterate k A eps x c = (Inr x', c') \<Longrightarrow>
   \<exists>es. length es \<le> k \<and> iters c' = iters c + length es \<and>
        matvecs c' = matvecs c + length es \<and> norms c' = norms c + 2 * length es \<and>
        errs c' = errs c @ es \<and> (\<forall>e \<in> set (butlast es). \<not> fless e eps) \<and>
        (length es < k \<longrightarrow> es \<noteq> [] \<and> fless (last es) eps)"
proof (induction k arbitrary: x c)
  case 0
  then show ?case by simp
next
  case (Suc k)
  from Suc.prems(1) show ?case
  proof (rule iterate_SucE)
    fix y d
    assume "fless (norm2 d) eps \<and> x' = divide_scalar y (norm2 y) \<and> c' = tick c (norm2 d) \<or>
         \<not> fless (norm2 d) eps \<and>
           iterate k A eps (divide_scalar y (norm2 y)) (tick c (norm2 d)) = (Inr x', c')"
    then consider (stop) "fless (norm2 d) eps" "c' = tick c (norm2 d)"
      | (go) "\<not> fless (norm2 d) eps"
          "iterate k A eps (divide_scalar y (norm2 y)) (tick c (norm2 d)) = (Inr x', c')"
      by blast
    then show ?thesis
    proof cases
      case stop
      then show ?thesis
        by (intro exI[of _ "[norm2 d]"]) (simp add: tick_def)
    next
      case go
      from Suc.IH[OF go(2)] obtain es where es: "length es \<le> k"
        "iters c' = iters (tick c (norm2 d)) + length es"
        "matvecs c' = matvecs (tick c (norm2 d)) + length es"
        "norms c' = norms (tick c (norm2 d)) + 2 * length es"
        "errs c' = errs (tick c (norm2 d)) @ es"
        "\<forall>e \<in> set (butlast es). \<not> fless e eps"
        "length es < k \<longrightarrow> es \<noteq> [] \<and> fless (last es) eps"
        by blast
      show ?thesis
      proof (intro exI[of _ "norm2 d # es"] conjI)
        show "\<forall>e \<in> set (butlast (norm2 d # es)). \<not> fless e eps"
          using es(6) go(1) by auto
        show "length (norm2 d # es) < Suc k \<longrightarrow>
              norm2 d # es \<noteq> [] \<and> fless (last (norm2 d # es)) eps"
          using es(7) by auto
      qed (use es in \<open>simp_all add: tick_def\<close>)
    qed
  qed
qed

lemma iterate_square:
  "shape A = [n, n] \<Longrightarrow> shape x = [n] \<Longrightarrow>
   \<exists>x' c'. iterate k A eps x c = (Inr x', c') \<and> shape x' = [n] \<and>
     (length (data x) = n \<longrightarrow> length (data x') = n)"
proof (induction k arbitrary: x c)
  case 0
  then show ?case by simp
next
  case (Suc k)
  from Suc.prems obtain y where y: "matmul A x = Inr y"
    using matmul_ok[of A x] by auto
  let ?x = "divide_scalar y (norm2 y)"
  have sy: "shape ?x = [n]" "length (data ?x) = n"
    using matmul_Inr(1,2)[OF y] Suc.prems by simp_all
  then obtain d where d: "elementwise fsub ?x x = Inr d"
    using elementwise_same[of ?x n x fsub] Suc.prems by simp
  from Suc.IH[OF Suc.prems(1) sy(1), of "tick c (norm2 d)"] sy(2)
  obtain x' c' where "iterate k A eps ?x (tick c (norm2 d)) = (Inr x', c')"
    "shape x' = [n]" "length (data x') = n" by blast
  with y d sy show ?case
    by (auto simp: Let_def tick_def)
qed

lemma init_x0_Inl: "init_x0 A x0 = Inl e \<Longrightarrow> e = X0BadShape"
  by (auto simp: init_x0_def Let_def split: option.splits if_splits)

lemma init_x0_shape: "init_x0 A x0 = Inr x \<Longrightarrow> length (shape x) = 1"
  by (auto simp: init_x0_def Let_def np_ones_def split: option.splits if_splits)

lemma power_method_st_run:
  "length (shape A) = 2 \<Longrightarrow> init_x0 A x0 = Inr x \<Longrightarrow>
   power_method_st A x0 eps max_iter =
     (case iterate (nat max_iter) A eps x c0 of
        (Inl e, c) \<Rightarrow> (Inl e, c)
      | (Inr x_i, c) \<Rightarrow> rayleigh_max A x_i c)"
  by (simp add: power_method_st_def)

lemma rayleigh_max_mismatch:
  "shape x = [k] \<Longrightarrow> k \<noteq> shape A ! 1 \<Longrightarrow> rayleigh_max A x c = (Inl MatmulMismatch, c)"
  by (simp add: rayleigh_max_def matmul_mismatch)

lemma c0_zero: "iters c0 = 0" "matvecs c0 = 0" "norms c0 = 0" "errs c0 = []"
  by (simp_all add: c0_def)

lemma power_method_not_validation_error:
  assumes "length (shape A) = 2" and "init_x0 A x0 = Inr x"
  shows "power_method A x0 eps max_iter \<noteq> Inl ANot2D"
    and "power_method A x0 eps max_iter \<noteq> Inl X0BadShape"
proof -
  obtain r c where it: "iterate (nat max_iter) A eps x c0 = (r, c)"
    by (cases "iterate (nat max_iter) A eps x c0")
  have "power_method A x0 eps max_iter \<noteq> Inl ANot2D \<and>
        power_method A x0 eps max_iter \<noteq> Inl X0BadShape"
  proof (cases r)
    case (Inl e)
    with it iterate_Inl[of "nat max_iter" A eps x c0 e c]
      power_method_st_run[OF assms, of eps max_iter]
    show ?thesis by (auto simp: power_method_def)
  next
    case (Inr x')
    have "fst (rayleigh_max A x' c) \<noteq> Inl ANot2D \<and> fst (rayleigh_max A x' c) \<noteq> Inl X0BadShape"
      by (auto simp: rayleigh_max_def Let_def np_max_def
          split: sum.splits list.splits dest: matmul_Inl elementwise_Inl)
    with it Inr power_method_st_run[OF assms, of eps max_iter]
    show ?thesis by (simp add: power_method_def)
  qed
  then show "power_method A x0 eps max_iter \<noteq> Inl ANot2D"
    and "power_method A x0 eps max_iter \<noteq> Inl X0BadShape" by simp_all
qed

subsection \<open>Finite numbers\<close>

lemma is_fin_conv: "is_fin v \<longleftrightarrow> (\<exists>a. v = Fin a)"
  by (cases v) simp_all

lemma fmul_fin: "fmul u v = Fin p \<Longrightarrow> \<exists>a b. u = Fin a \<and> v = Fin b \<and> p = a * b"
  by (cases u; cases v) (simp_all split: if_splits)

lemma fadd_fin: "fadd u v = Fin p \<Longrightarrow> \<exists>a b. u = Fin a \<and> v = Fin b \<and> p = a + b"
  by (cases u; cases v) simp_all

lemma all_fin_map: "(\<forall>v \<in> set ys. is_fin v) \<Longrightarrow> \<exists>as. ys = map Fin as"
proof (induction ys)
  case Nil
  then show ?case by simp
next
  case (Cons y ys)
  then obtain a as where "y = Fin a" "ys = map Fin as"
    by (auto simp: is_fin_conv)
  then show ?case
    by (intro exI[of _ "a # as"]) simp
qed

lemma sumsq_nonneg: "0 \<le> sumsq as"
  by (induction as) (simp_all add: sumsq_def)

lemma sumsq_zero: "sumsq as = 0 \<Longrightarrow> a \<in> set as \<Longrightarrow> a = 0"
proof (induction as)
  case Nil
  then show ?case by simp
next
  case (Cons b bs)
  have "0 \<le> b * b" "0 \<le> sumsq bs" by (simp_all add: sumsq_nonneg)
  moreover from Cons.prems(1) have "b * b + sumsq bs = 0" by (simp add: sumsq_def)
  ultimately have "b * b = 0" "sumsq bs = 0" by linarith+
  with Cons show ?case by auto
qed

lemma fsum_squares: "fsum (map (\<lambda>v. fmul v v) (map Fin as)) = Fin (sumsq as)"
  by (induction as) (simp_all add: sumsq_def)

lemma fsum_squares_fin:
  "fsum (map (\<lambda>v. fmul v v) ys) = Fin s \<Longrightarrow> \<exists>as. ys = map Fin as \<and> s = sumsq as"
proof (induction ys arbitrary: s)
  case Nil
  then show ?case by (simp add: sumsq_def)
next
  case (Cons y ys)
  from Cons.prems obtain p t where pt: "fmul y y = Fin p" "fsum (map (\<lambda>v. fmul v v) ys) = Fin t"
    "s = p + t"
    by (auto dest: fadd_fin)
  from pt(1) obtain a where a: "y = Fin a" "p = a * a"
    by (auto dest: fmul_fin)
  from Cons.IH[OF pt(2)] obtain as where as: "ys = map Fin as" "t = sumsq as" by blast
  show ?case
    using a as pt(3) by (intro exI[of _ "a # as"]) (simp add: sumsq_def)
qed

lemma norm2_fin: "data x = map Fin as \<Longrightarrow> norm2 x = Fin (sqrt (sumsq as))"
  by (simp only: norm2_def fsum_squares) (simp add: sumsq_nonneg)

subsection \<open>The shape of a successful call\<close>

lemma rayleigh_max_InrE:
  assumes "rayleigh_max A x c = (Inr (ev, v), c')"
  obtains q r where "v = x" and "matmul A x = Inr q" and "elementwise fdiv q x = Inr r"
    and "np_max r = Inr ev" and "c' = c\<lparr>matvecs := matvecs c + 1\<rparr>"
  using assms
  by (auto simp: rayleigh_max_def Let_def split: sum.splits)

lemma power_method_st_InrE:
  assumes "power_method_st A x0 eps max_iter = (Inr (ev, x), c')"
  obtains xi c q r where "length (shape A) = 2" and "init_x0 A x0 = Inr xi"
    and "iterate (nat max_iter) A eps xi c0 = (Inr x, c)"
    and "matmul A x = Inr q" and "elementwise fdiv q x = Inr r"
    and "np_max r = Inr ev" and "c' = c\<lparr>matvecs := matvecs c + 1\<rparr>"
proof -
  from assms have 2: "length (shape A) = 2"
    by (auto simp: power_method_st_def split: if_splits)
  with assms obtain xi where xi: "init_x0 A x0 = Inr xi"
    by (cases "init_x0 A x0") (auto simp: power_method_st_def)
  obtain res c where it: "iterate (nat max_iter) A eps xi c0 = (res, c)"
    by (cases "iterate (nat max_iter) A eps xi c0")
  with assms power_method_st_run[OF 2 xi, of eps max_iter]
  obtain x' where x': "res = Inr x'" "rayleigh_max A x' c = (Inr (ev, x), c')"
    by (cases res) auto
  from x'(2) show thesis
    by (rule rayleigh_max_InrE) (use 2 xi it x'(1) that in auto)
qed

subsection \<open>Division by a zero norm and what follows\<close>

lemma fmul_NaN [simp]: "fmul v NaN = NaN"
  by (cases v) simp_all

lemma fdiv_NaN [simp]: "fdiv v NaN = NaN"
  by (cases v) simp_all

lemma fadd_NaN [simp]: "fadd v NaN = NaN"
  by (cases v) simp_all

lemma fsub_NaN_left [simp]: "fsub NaN v = NaN"
  by (simp add: fsub_def)

lemma fless_NaN_left [simp]: "fless NaN v = False"
  by (cases v) simp_all

lemma map_fsub_NaN: "map (fsub NaN) xs = replicate (length xs) NaN"
  by (induction xs) simp_all

lemma fsum_replicate_NaN: "0 < n \<Longrightarrow> fsum (replicate n NaN) = NaN"
  by (cases n) simp_all

lemma map2_replicate_right:
  "length xs = n \<Longrightarrow> map2 f xs (replicate n c) = map (\<lambda>x. f x c) xs"
  by (induction xs arbitrary: n) auto

lemma map2_replicate_left:
  "length xs = n \<Longrightarrow> map2 f (replicate n c) xs = map (f c) xs"
  by (induction xs arbitrary: n) auto

lemma map_const_replicate: "map (\<lambda>x. c) xs = replicate (length xs) c"
  by (induction xs) simp_all

lemma dot_NaN: "length r = n \<Longrightarrow> 0 < n \<Longrightarrow> dot r (replicate n NaN) = NaN"
  by (simp add: dot_def map2_replicate_right map_const_replicate fsum_replicate_NaN)

lemma rows_length:
  assumes "length xs = m * n" and "r \<in> set (rows m n xs)"
  shows "length r = n"
proof -
  from assms(2) obtain i where i: "i < m" "r = take n (drop (i * n) xs)"
    by (auto simp: rows_def)
  from i(1) have "Suc i \<le> m" by simp
  then have "Suc i * n \<le> m * n" by (rule mult_le_mono1)
  then have "n \<le> m * n - i * n" by simp
  with assms(1) i(2) show ?thesis by simp
qed

lemma matmul_nan_vector:
  assumes "shape A = [n, n]" and "length (data A) = n * n" and "0 < n"
  shows "matmul A (nan_vector n) = Inr (nan_vector n)"
proof -
  have "map (\<lambda>r. dot r (replicate n NaN)) (rows n n (data A))
          = map (\<lambda>r. NaN) (rows n n (data A))"
    using assms(2,3) by (intro map_cong refl dot_NaN) (auto dest: rows_length)
  also have "\<dots> = replicate n NaN"
    by (simp add: map_const_replicate rows_def)
  finally show ?thesis
    using assms(1) by (simp add: matmul_def nan_vector_def)
qed

lemma norm2_nan_vector: "0 < n \<Longrightarrow> norm2 (nan_vector n) = NaN"
  by (simp add: norm2_def nan_vector_def fsum_replicate_NaN)

lemma divide_scalar_nan_vector: "divide_scalar (nan_vector n) s = nan_vector n"
  by (cases s) (simp_all add: divide_scalar_def nan_vector_def)

lemma elementwise_fsub_nan_vector:
  "shape x = [n] \<Longrightarrow> length (data x) = n \<Longrightarrow>
   elementwise fsub (nan_vector n) x = Inr (nan_vector n)"
  by (simp add: elementwise_def nan_vector_def map2_replicate_left map_fsub_NaN)

lemma elementwise_fdiv_nan_vector:
  "elementwise fdiv (nan_vector n) (nan_vector n) = Inr (nan_vector n)"
  by (simp add: elementwise_def nan_vector_def map2_replicate_left)

lemma iterate_nan_vector:
  assumes "shape A = [n, n]" and "length (data A) = n * n" and "0 < n"
  shows "fst (iterate k A eps (nan_vector n) c) = Inr (nan_vector n)"
proof (induction k arbitrary: c)
  case 0
  then show ?case by simp
next
  case (Suc k)
  have "elementwise fsub (nan_vector n) (nan_vector n) = Inr (nan_vector n)"
    by (rule elementwise_fsub_nan_vector) (simp_all add: nan_vector_def)
  then show ?case
    using Suc.IH assms(3)
    by (simp add: matmul_nan_vector[OF assms] norm2_nan_vector divide_scalar_nan_vector
        Let_def)
qed

lemma foldl_fmaximum_NaN: "foldl fmaximum NaN vs = NaN"
  by (induction vs) (simp_all add: fmaximum_def)

lemma rayleigh_max_nan_vector:
  assumes "shape A = [n, n]" and "length (data A) = n * n" and "0 < n"
  shows "fst (rayleigh_max A (nan_vector n) c) = Inr (NaN, nan_vector n)"
proof -
  from assms(3) obtain j where "n = Suc j" by (cases n) auto
  then have "np_max (nan_vector n) = Inr NaN"
    by (simp add: np_max_def nan_vector_def foldl_fmaximum_NaN)
  then show ?thesis
    by (simp add: rayleigh_max_def matmul_nan_vector[OF assms] elementwise_fdiv_nan_vector
        Let_def)
qed

text \<open>A norm is zero only for the vector of zeros, and its normalisation is all NaN.\<close>

lemma norm2_zero:
  assumes "norm2 y = Fin 0"
  shows "data y = replicate (length (data y)) (Fin 0)"
proof -
  from assms obtain s where s: "fsum (map (\<lambda>v. fmul v v) (data y)) = Fin s" "sqrt s = 0"
    by (cases "fsum (map (\<lambda>v. fmul v v) (data y))") (auto simp: norm2_def split: if_splits)
  from fsum_squares_fin[OF s(1)] obtain as where as: "data y = map Fin as" "s = sumsq as"
    by blast
  with s(2) have "\<forall>a \<in> set as. a = 0"
    by (auto dest: sumsq_zero)
  then have "map Fin as = replicate (length as) (Fin 0)"
    by (induction as) simp_all
  with as(1) show ?thesis by simp
qed

lemma normalise_zero:
  assumes "norm2 y = Fin 0" and "shape y = [n]" and "length (data y) = n"
  shows "divide_scalar y (norm2 y) = nan_vector n"
proof -
  have "data y = replicate n (Fin 0)"
    using norm2_zero[OF assms(1)] assms(3) by simp
  then have "map (\<lambda>v. fdiv v (Fin 0)) (data y) = replicate n NaN"
    by simp
  then show ?thesis
    using assms(1,2) by (simp add: divide_scalar_def nan_vector_def)
qed

lemma iterate_zero_norm:
  assumes A: "shape A = [n, n]" "length (data A) = n * n" "0 < n"
    and x: "shape x = [n]" "length (data x) = n"
    and y: "matmul A x = Inr y" "norm2 y = Fin 0"
  shows "fst (iterate (Suc k) A eps x c) = Inr (nan_vector n)"
proof -
  have "divide_scalar y (norm2 y) = nan_vector n"
    using y(2) matmul_Inr(1,2)[OF y(1)] A(1) by (intro normalise_zero) simp_all
  moreover have "elementwise fsub (nan_vector n) x = Inr (nan_vector n)"
    using x by (rule elementwise_fsub_nan_vector)
  ultimately show ?thesis
    using y(1) A(3) iterate_nan_vector[OF A]
    by (simp add: norm2_nan_vector Let_def)
qed

subsection \<open>Square matrices with a fitting starting vector\<close>

lemma init_x0_fits:
  assumes "shape A = [n, n]" and "x0_fits n x0"
  obtains xi where "init_x0 A x0 = Inr xi" and "shape xi = [n]" and "length (data xi) = n"
  using assms
  by (cases x0) (auto simp: init_x0_def x0_fits_def np_ones_def np_squeeze_def Let_def)

lemma rayleigh_max_square:
  assumes "shape A = [n, n]" and "0 < n" and "shape x = [n]" and "length (data x) = n"
  shows "\<exists>ev. rayleigh_max A x c = (Inr (ev, x), c\<lparr>matvecs := matvecs c + 1\<rparr>)"
proof -
  from assms(1,3) obtain q where q: "matmul A x = Inr q"
    using matmul_ok[of A x] by auto
  have sq: "shape q = [n]" "length (data q) = n"
    using matmul_Inr(1,2)[OF q] assms(1) by simp_all
  let ?r = "\<lparr>shape = [n], data = map2 fdiv (data q) (data x)\<rparr>"
  have r: "elementwise fdiv q x = Inr ?r"
    using sq(1) assms(3) by (rule elementwise_same)
  have "data ?r \<noteq> []"
    using sq(2) assms(2,4) by auto
  then obtain ev where "np_max ?r = Inr ev"
    by (cases "data ?r") (auto simp: np_max_def)
  with q r show ?thesis
    by (simp add: rayleigh_max_def)
qed

lemma power_method_square_returns:
  assumes "shape A = [n, n]" and "0 < n" and "x0_fits n x0"
  shows "\<exists>ev x c. power_method_st A x0 eps max_iter = (Inr (ev, x), c) \<and> shape x = [n]"
proof -
  from assms(1,3) obtain xi where xi: "init_x0 A x0 = Inr xi" "shape xi = [n]"
    "length (data xi) = n"
    by (rule init_x0_fits)
  from iterate_square[OF assms(1) xi(2), of "nat max_iter" eps c0] xi(3)
  obtain x c where it: "iterate (nat max_iter) A eps xi c0 = (Inr x, c)" "shape x = [n]"
    "length (data x) = n"
    by blast
  from rayleigh_max_square[OF assms(1,2) it(2,3), of c]
  obtain ev where "rayleigh_max A x c = (Inr (ev, x), c\<lparr>matvecs := matvecs c + 1\<rparr>)" ..
  with xi(1) it(1,2) assms(1) show ?thesis
    by (simp add: power_method_st_def)
qed

subsection \<open>Evaluation on numerals\<close>

lemma iterate_converged:
  assumes "matmul A x = Inr y" and "elementwise fsub (divide_scalar y (norm2 y)) x = Inr d"
    and "fless (norm2 d) eps"
  shows "iterate (Suc k) A eps x c = (Inr (divide_scalar y (norm2 y)), tick c (norm2 d))"
  using assms by (simp add: tick_def Let_def)

lemma iterate_continue:
  assumes "matmul A x = Inr y" and "elementwise fsub (divide_scalar y (norm2 y)) x = Inr d"
    and "\<not> fless (norm2 d) eps"
  shows "iterate (Suc k) A eps x c = iterate k A eps (divide_scalar y (norm2 y)) (tick c (norm2 d))"
  using assms by (simp add: tick_def Let_def)

lemma nat_10000: "nat 10000 = Suc 9999"
  by simp

lemma rows_2_2: "rows 2 2 [a, b, c, d] = [[a, b], [c, d]]"
  by (simp add: rows_def numeral_2_eq_2)

lemma replicate_2: "replicate 2 v = [v, v]"
  by (simp add: numeral_2_eq_2)

lemmas eval_defs =
  matmul_def dot_def divide_scalar_def norm2_def elementwise_def stretch_def fsub_def
  rayleigh_max_def np_max_def fmaximum_def Let_def

subsection \<open>The maximum over all components and over the non-zero ones\<close>

lemma masked_ratios_all:
  "Fin 0 \<notin> set (data x) \<Longrightarrow> masked_ratios q x = map2 fdiv (data q) (data x)"
proof -
  assume "Fin 0 \<notin> set (data x)"
  then have "\<forall>p \<in> set (zip (data q) (data x)). snd p \<noteq> Fin 0"
    by (auto dest: set_zip_rightD)
  then have "filter (\<lambda>(a, b). b \<noteq> Fin 0) (zip (data q) (data x)) = zip (data q) (data x)"
    by (auto simp: filter_id_conv)
  then show ?thesis by (simp add: masked_ratios_def)
qed

lemma masked_max_all:
  "Fin 0 \<notin> set (data x) \<Longrightarrow>
   masked_max q x = np_max \<lparr>shape = s, data = map2 fdiv (data q) (data x)\<rparr>"
  by (simp add: masked_max_def np_max_def masked_ratios_all)

lemma foldl_fmaximum_NaN_mem: "NaN \<in> set vs \<Longrightarrow> foldl fmaximum v vs = NaN"
proof (induction vs arbitrary: v)
  case Nil
  then show ?case by simp
next
  case (Cons w ws)
  show ?case
  proof (cases "w = NaN")
    case True
    then have "fmaximum v w = NaN" by (simp add: fmaximum_def)
    then show ?thesis by (simp add: foldl_fmaximum_NaN)
  next
    case False
    with Cons show ?thesis by simp
  qed
qed

lemma np_max_NaN: "np_max r = Inr ev \<Longrightarrow> NaN \<in> set (data r) \<Longrightarrow> ev = NaN"
  by (cases "data r")
    (auto simp: np_max_def foldl_fmaximum_NaN foldl_fmaximum_NaN_mem)

lemma fdiv_zero_not_fin: "\<not> is_fin (fdiv v (Fin 0))"
  by (cases v) simp_all


subsection \<open>Two runs evaluated\<close>

text \<open>
  Twice the identity, started on the unit vector \<open>(3/5, 4/5)\<close>: the first iterate is the
  starting vector, the loop stops there, and the eigenvalue is 2.
\<close>

lemma run_scaled_identity:
  "power_method_st \<lparr>shape = [2, 2], data = [Fin 2, Fin 0, Fin 0, Fin 2]\<rparr>
     (Some \<lparr>shape = [2], data = [Fin (3 / 5), Fin (4 / 5)]\<rparr>) (Fin (1 / 10 ^ 7)) 10000
   = (Inr (Fin 2, \<lparr>shape = [2], data = [Fin (3 / 5), Fin (4 / 5)]\<rparr>),
      \<lparr>iters = 1, matvecs = 2, norms = 2, errs = [Fin 0]\<rparr>)"
proof -
  let ?A = "\<lparr>shape = [2, 2], data = [Fin 2, Fin 0, Fin 0, Fin 2]\<rparr>"
  let ?x = "\<lparr>shape = [2], data = [Fin (3 / 5), Fin (4 / 5)]\<rparr>"
  let ?y = "\<lparr>shape = [2], data = [Fin (6 / 5), Fin (8 / 5)]\<rparr>"
  let ?d = "\<lparr>shape = [2], data = [Fin 0, Fin 0]\<rparr>"
  have y: "matmul ?A ?x = Inr ?y"
    by (simp add: matmul_def dot_def rows_2_2)
  have "(36 :: real) / 25 + 64 / 25 = 4" by simp
  then have n: "norm2 ?y = Fin 2"
    by (simp add: norm2_def)
  have x: "divide_scalar ?y (Fin 2) = ?x"
    by (simp add: divide_scalar_def)
  have d: "elementwise fsub ?x ?x = Inr ?d"
    by (simp add: elementwise_def fsub_def)
  have e: "norm2 ?d = Fin 0"
    by (simp add: norm2_def)
  have it: "iterate (nat 10000) ?A (Fin (1 / 10 ^ 7)) ?x c0 = (Inr ?x, tick c0 (Fin 0))"
    using iterate_converged[of ?A ?x ?y ?d "Fin (1 / 10 ^ 7)" 9999 c0] y d
    by (simp only: nat_10000 n x e) simp
  have r: "rayleigh_max ?A ?x (tick c0 (Fin 0))
      = (Inr (Fin 2, ?x), (tick c0 (Fin 0))\<lparr>matvecs := matvecs (tick c0 (Fin 0)) + 1\<rparr>)"
    by (simp add: rayleigh_max_def y elementwise_def np_max_def fmaximum_def)
  have init: "init_x0 ?A (Some ?x) = Inr ?x"
    by (simp add: init_x0_def np_squeeze_def)
  show ?thesis
    using power_method_st_run[of ?A "Some ?x" ?x "Fin (1 / 10 ^ 7)" 10000] init it r
    by (simp add: tick_def c0_def)
qed

text \<open>
  The diagonal matrix of 2 and 1, started on the first unit vector, an eigenvector with
  a zero entry: the loop stops after one iteration, and the ratio \<open>0 / 0\<close> of the second
  component makes the maximum NaN.
\<close>

lemma run_diagonal:
  "power_method_st \<lparr>shape = [2, 2], data = [Fin 2, Fin 0, Fin 0, Fin 1]\<rparr>
     (Some \<lparr>shape = [2], data = [Fin 1, Fin 0]\<rparr>) (Fin (1 / 10 ^ 7)) 10000
   = (Inr (NaN, \<lparr>shape = [2], data = [Fin 1, Fin 0]\<rparr>),
      \<lparr>iters = 1, matvecs = 2, norms = 2, errs = [Fin 0]\<rparr>)"
proof -
  let ?A = "\<lparr>shape = [2, 2], data = [Fin 2, Fin 0, Fin 0, Fin 1]\<rparr>"
  let ?x = "\<lparr>shape = [2], data = [Fin 1, Fin 0]\<rparr>"
  let ?y = "\<lparr>shape = [2], data = [Fin 2, Fin 0]\<rparr>"
  let ?d = "\<lparr>shape = [2], data = [Fin 0, Fin 0]\<rparr>"
  have y: "matmul ?A ?x = Inr ?y"
    by (simp add: matmul_def dot_def rows_2_2)
  have n: "norm2 ?y = Fin 2"
    by (simp add: norm2_def)
  have x: "divide_scalar ?y (Fin 2) = ?x"
    by (simp add: divide_scalar_def)
  have d: "elementwise fsub ?x ?x = Inr ?d"
    by (simp add: elementwise_def fsub_def)
  have e: "norm2 ?d = Fin 0"
    by (simp add: norm2_def)
  have it: "iterate (nat 10000) ?A (Fin (1 / 10 ^ 7)) ?x c0 = (Inr ?x, tick c0 (Fin 0))"
    using iterate_converged[of ?A ?x ?y ?d "Fin (1 / 10 ^ 7)" 9999 c0] y d
    by (simp only: nat_10000 n x e) simp
  have r: "rayleigh_max ?A ?x (tick c0 (Fin 0))
      = (Inr (NaN, ?x), (tick c0 (Fin 0))\<lparr>matvecs := matvecs (tick c0 (Fin 0)) + 1\<rparr>)"
    by (simp add: rayleigh_max_def y elementwise_def np_max_def fmaximum_def)
  have init: "init_x0 ?A (Some ?x) = Inr ?x"
    by (simp add: init_x0_def np_squeeze_def)
  show ?thesis
    using power_method_st_run[of ?A "Some ?x" ?x "Fin (1 / 10 ^ 7)" 10000] init it r
    by (simp add: tick_def c0_def)
qed

lemma sqrt_3_not_small: "\<not> fless (Fin (sqrt 3)) (Fin (1 / 10 ^ 7))"
proof -
  have "1 \<le> sqrt 3" by simp
  moreover have "(1 :: real) / 10 ^ 7 \<le> 1" by simp
  ultimately have "\<not> sqrt 3 < 1 / 10 ^ 7" by linarith
  then show ?thesis unfolding fless.simps(1) .
qed

text \<open>
  A matrix of one row, started on a vector it maps to a multiple of the one-entry unit
  vector, with a cap of one iteration: the subtraction broadcasts, the error is
  \<open>sqrt 3\<close>, the loop ends at the cap, and the product after the loop finds a vector of
  length 1 for a matrix of 3 columns.
\<close>

lemma run_one_row:
  "power_method_st \<lparr>shape = [1, 3], data = [Fin 1, Fin 0, Fin 0]\<rparr>
     (Some \<lparr>shape = [3], data = [Fin 2, Fin 0, Fin 0]\<rparr>) (Fin (1 / 10 ^ 7)) 1
   = (Inl MatmulMismatch, \<lparr>iters = 1, matvecs = 1, norms = 2, errs = [Fin (sqrt 3)]\<rparr>)"
proof -
  let ?A = "\<lparr>shape = [1, 3], data = [Fin 1, Fin 0, Fin 0]\<rparr>"
  let ?x = "\<lparr>shape = [3], data = [Fin 2, Fin 0, Fin 0]\<rparr>"
  let ?y = "\<lparr>shape = [1], data = [Fin 2]\<rparr>"
  let ?x1 = "\<lparr>shape = [1], data = [Fin 1]\<rparr>"
  let ?d = "\<lparr>shape = [3], data = [Fin (- 1), Fin 1, Fin 1]\<rparr>"
  have y: "matmul ?A ?x = Inr ?y"
    by (simp add: matmul_def dot_def rows_def)
  have n: "norm2 ?y = Fin 2"
    by (simp add: norm2_def)
  have x1: "divide_scalar ?y (Fin 2) = ?x1"
    by (simp add: divide_scalar_def)
  have d: "elementwise fsub ?x1 ?x = Inr ?d"
    by (simp add: elementwise_def fsub_def stretch_def numeral_3_eq_3)
  have e: "norm2 ?d = Fin (sqrt 3)"
    by (simp add: norm2_def)
  note ne = sqrt_3_not_small
  have it: "iterate (Suc 0) ?A (Fin (1 / 10 ^ 7)) ?x c0 = (Inr ?x1, tick c0 (Fin (sqrt 3)))"
    using iterate_continue[of ?A ?x ?y ?d "Fin (1 / 10 ^ 7)" 0 c0] y d ne
    by (simp only: n x1 e) simp
  have r: "rayleigh_max ?A ?x1 c = (Inl MatmulMismatch, c)" for c
    by (simp add: rayleigh_max_mismatch)
  have init: "init_x0 ?A (Some ?x) = Inr ?x"
    by (simp add: init_x0_def np_squeeze_def)
  show ?thesis
    using power_method_st_run[of ?A "Some ?x" ?x "Fin (1 / 10 ^ 7)" 1] init it r
    by (simp add: tick_def c0_def)
qed

subsection \<open>A zero denominator in the ratios\<close>

lemma ratio_zero_denominator:
  assumes "shape A = [n, n]" and "shape x = [n]" and "length (data x) = n"
    and "i < n" and "data x ! i = Fin 0"
  obtains q r where "matmul A x = Inr q" and "elementwise fdiv q x = Inr r"
    and "\<not> is_fin (data r ! i)"
proof -
  from assms(1,2) obtain q where q: "matmul A x = Inr q"
    using matmul_ok[of A x] by auto
  have sq: "shape q = [n]" "length (data q) = n"
    using matmul_Inr(1,2)[OF q] assms(1) by simp_all
  let ?r = "\<lparr>shape = [n], data = map2 fdiv (data q) (data x)\<rparr>"
  have r: "elementwise fdiv q x = Inr ?r"
    using sq(1) assms(2) by (rule elementwise_same)
  have "data ?r ! i = fdiv (data q ! i) (Fin 0)"
    using sq(2) assms(3,4,5) by simp
  then have "\<not> is_fin (data ?r ! i)"
    by (simp add: fdiv_zero_not_fin)
  with q r show thesis by (rule that)
qed

subsection \<open>Running again from a returned vector\<close>

lemma np_squeeze_vector: "shape x = [m] \<Longrightarrow> m \<noteq> 1 \<Longrightarrow> np_squeeze x = x"
  by (simp add: np_squeeze_def)

text \<open>Norms that are rational, and norms below a bound.\<close>

lemma fsqrt_square: "0 \<le> b \<Longrightarrow> fsqrt (Fin (b * b)) = Fin b"
  by simp

lemma fless_fsqrt: "0 \<le> s \<Longrightarrow> 0 \<le> b \<Longrightarrow> s < b * b \<Longrightarrow> fless (fsqrt (Fin s)) (Fin b)"
  by (simp add: real_less_lsqrt power2_eq_square)

text \<open>
  A matrix whose iterates keep turning, with the tolerance \<open>1/2\<close>. From the default
  starting vector the first iterate is \<open>(3/5, 4/5)\<close>, at a distance below \<open>1/2\<close>, and the
  eigenvalue returned is 3. Started again on \<open>(3/5, 4/5)\<close>, the first iterate is
  \<open>(5/13, 12/13)\<close>, again at a distance below \<open>1/2\<close>, and the eigenvalue returned is
  \<open>5/3\<close>.
\<close>

lemma run_turning_first:
  "power_method_st \<lparr>shape = [2, 2], data = [Fin 7, Fin (- 4), Fin 4, Fin 0]\<rparr> None
     (Fin (1 / 2)) 10000
   = (Inr (Fin 3, \<lparr>shape = [2], data = [Fin (3 / 5), Fin (4 / 5)]\<rparr>),
      \<lparr>iters = 1, matvecs = 2, norms = 2,
       errs = [norm2 \<lparr>shape = [2], data = [Fin (- 2 / 5), Fin (- 1 / 5)]\<rparr>]\<rparr>) \<and>
   fless (norm2 \<lparr>shape = [2], data = [Fin (- 2 / 5), Fin (- 1 / 5)]\<rparr>) (Fin (1 / 2))"
proof -
  let ?A = "\<lparr>shape = [2, 2], data = [Fin 7, Fin (- 4), Fin 4, Fin 0]\<rparr>"
  let ?x = "\<lparr>shape = [2], data = [Fin 1, Fin 1]\<rparr>"
  let ?y = "\<lparr>shape = [2], data = [Fin 3, Fin 4]\<rparr>"
  let ?x1 = "\<lparr>shape = [2], data = [Fin (3 / 5), Fin (4 / 5)]\<rparr>"
  let ?d = "\<lparr>shape = [2], data = [Fin (- 2 / 5), Fin (- 1 / 5)]\<rparr>"
  have init: "init_x0 ?A None = Inr ?x"
    by (simp add: init_x0_def np_ones_def replicate_2)
  have y: "matmul ?A ?x = Inr ?y"
    by (simp add: matmul_def dot_def rows_2_2)
  have "norm2 ?y = fsqrt (Fin (5 * 5))"
    by (simp add: norm2_def)
  also have "\<dots> = Fin 5"
    by (rule fsqrt_square) simp
  finally have n: "norm2 ?y = Fin 5" .
  have x1: "divide_scalar ?y (Fin 5) = ?x1"
    by (simp add: divide_scalar_def)
  have d: "elementwise fsub ?x1 ?x = Inr ?d"
    by (simp add: elementwise_def fsub_def)
  have "norm2 ?d = fsqrt (Fin (1 / 5))"
    by (simp add: norm2_def)
  moreover have "fless (fsqrt (Fin (1 / 5))) (Fin (1 / 2))"
    by (rule fless_fsqrt) simp_all
  ultimately have e: "fless (norm2 ?d) (Fin (1 / 2))" by simp
  have it: "iterate (nat 10000) ?A (Fin (1 / 2)) ?x c0 = (Inr ?x1, tick c0 (norm2 ?d))"
    using iterate_converged[of ?A ?x ?y ?d "Fin (1 / 2)" 9999 c0] y d e
    by (simp only: nat_10000 n x1)
  have r: "rayleigh_max ?A ?x1 c = (Inr (Fin 3, ?x1), c\<lparr>matvecs := matvecs c + 1\<rparr>)" for c
    by (simp add: rayleigh_max_def matmul_def dot_def rows_2_2 elementwise_def np_max_def
        fmaximum_def)
  have "power_method_st ?A None (Fin (1 / 2)) 10000
      = (Inr (Fin 3, ?x1), \<lparr>iters = 1, matvecs = 2, norms = 2, errs = [norm2 ?d]\<rparr>)"
    using power_method_st_run[of ?A None ?x "Fin (1 / 2)" 10000] init it r
    by (simp add: tick_def c0_def)
  with e show ?thesis by simp
qed

lemma run_turning_second:
  "power_method_st \<lparr>shape = [2, 2], data = [Fin 7, Fin (- 4), Fin 4, Fin 0]\<rparr>
     (Some \<lparr>shape = [2], data = [Fin (3 / 5), Fin (4 / 5)]\<rparr>) (Fin (1 / 2)) 10000
   = (Inr (Fin (5 / 3), \<lparr>shape = [2], data = [Fin (5 / 13), Fin (12 / 13)]\<rparr>),
      \<lparr>iters = 1, matvecs = 2, norms = 2,
       errs = [norm2 \<lparr>shape = [2], data = [Fin (- 14 / 65), Fin (8 / 65)]\<rparr>]\<rparr>) \<and>
   fless (norm2 \<lparr>shape = [2], data = [Fin (- 14 / 65), Fin (8 / 65)]\<rparr>) (Fin (1 / 2))"
proof -
  let ?A = "\<lparr>shape = [2, 2], data = [Fin 7, Fin (- 4), Fin 4, Fin 0]\<rparr>"
  let ?x = "\<lparr>shape = [2], data = [Fin (3 / 5), Fin (4 / 5)]\<rparr>"
  let ?y = "\<lparr>shape = [2], data = [Fin 1, Fin (12 / 5)]\<rparr>"
  let ?x1 = "\<lparr>shape = [2], data = [Fin (5 / 13), Fin (12 / 13)]\<rparr>"
  let ?d = "\<lparr>shape = [2], data = [Fin (- 14 / 65), Fin (8 / 65)]\<rparr>"
  have init: "init_x0 ?A (Some ?x) = Inr ?x"
    by (simp add: init_x0_def np_squeeze_def)
  have y: "matmul ?A ?x = Inr ?y"
    by (simp add: matmul_def dot_def rows_2_2)
  have "norm2 ?y = fsqrt (Fin (13 / 5 * (13 / 5)))"
    by (simp add: norm2_def)
  also have "\<dots> = Fin (13 / 5)"
    by (rule fsqrt_square) simp
  finally have n: "norm2 ?y = Fin (13 / 5)" .
  have x1: "divide_scalar ?y (Fin (13 / 5)) = ?x1"
    by (simp add: divide_scalar_def)
  have d: "elementwise fsub ?x1 ?x = Inr ?d"
    by (simp add: elementwise_def fsub_def)
  have "norm2 ?d = fsqrt (Fin (4 / 65))"
    by (simp add: norm2_def)
  moreover have "fless (fsqrt (Fin (4 / 65))) (Fin (1 / 2))"
    by (rule fless_fsqrt) simp_all
  ultimately have e: "fless (norm2 ?d) (Fin (1 / 2))" by simp
  have it: "iterate (nat 10000) ?A (Fin (1 / 2)) ?x c0 = (Inr ?x1, tick c0 (norm2 ?d))"
    using iterate_converged[of ?A ?x ?y ?d "Fin (1 / 2)" 9999 c0] y d e
    by (simp only: nat_10000 n x1)
  have r: "rayleigh_max ?A ?x1 c = (Inr (Fin (5 / 3), ?x1), c\<lparr>matvecs := matvecs c + 1\<rparr>)" for c
    by (simp add: rayleigh_max_def matmul_def dot_def rows_2_2 elementwise_def np_max_def
        fmaximum_def)
  have "power_method_st ?A (Some ?x) (Fin (1 / 2)) 10000
      = (Inr (Fin (5 / 3), ?x1), \<lparr>iters = 1, matvecs = 2, norms = 2, errs = [norm2 ?d]\<rparr>)"
    using power_method_st_run[of ?A "Some ?x" ?x "Fin (1 / 2)" 10000] init it r
    by (simp add: tick_def c0_def)
  with e show ?thesis by simp
qed

subsection \<open>The store only grows, and the routine over it computes the same values\<close>

lemma load_prefix: "prefix s s' \<Longrightarrow> buf r < length s \<Longrightarrow> load s' r = load s r"
  by (auto simp: load_def prefix_def nth_append)

lemma iterate_h_step:
  assumes "buf A < length s" and "buf x < length s"
  shows "iterate_h (Suc k) A eps x s =
     (case matmul (load s A) (load s x) of
        Inl e \<Rightarrow> (Inl e, s)
      | Inr y \<Rightarrow>
          (case elementwise fsub (divide_scalar y (norm2 y)) (load s x) of
             Inl e \<Rightarrow> (Inl e, s @ [data y, data (divide_scalar y (norm2 y))])
           | Inr d \<Rightarrow>
               if fless (norm2 d) eps
               then (Inr \<lparr>buf = Suc (length s), dims = shape y\<rparr>,
                     s @ [data y, data (divide_scalar y (norm2 y)), data d])
               else iterate_h k A eps \<lparr>buf = Suc (length s), dims = shape y\<rparr>
                     (s @ [data y, data (divide_scalar y (norm2 y)), data d])))"
proof (cases "matmul (load s A) (load s x)")
  case (Inl e)
  then show ?thesis by (simp add: alloc_result_def)
next
  case (Inr y)
  let ?s1 = "s @ [data y]"
  let ?xn = "divide_scalar y (norm2 y)"
  let ?s2 = "s @ [data y, data ?xn]"
  have l1: "load ?s1 \<lparr>buf = length s, dims = shape y\<rparr> = y"
    by (simp add: load_def)
  have l2: "load ?s2 \<lparr>buf = Suc (length s), dims = shape y\<rparr> = ?xn"
    by (simp add: load_def nth_append divide_scalar_def)
  have l3: "load ?s2 x = load s x"
    using assms(2) by (simp add: load_def nth_append)
  have a1: "alloc_result (Inr y) s = (Inr \<lparr>buf = length s, dims = shape y\<rparr>, ?s1)"
    by (simp add: alloc_result_def alloc_def)
  have a2: "alloc ?xn ?s1 = (\<lparr>buf = Suc (length s), dims = shape y\<rparr>, ?s2)"
    by (simp add: alloc_def)
  show ?thesis
  proof (cases "elementwise fsub ?xn (load s x)")
    case (Inl e)
    then show ?thesis
      by (simp only: iterate_h.simps Inr a1 prod.case sum.case l1 a2 l2 l3)
        (simp add: alloc_result_def)
  next
    case d: (Inr d)
    have a3: "alloc_result (Inr d) ?s2 = (Inr \<lparr>buf = length ?s2, dims = shape d\<rparr>,
        s @ [data y, data ?xn, data d])"
      by (simp add: alloc_result_def alloc_def)
    have l4: "load (s @ [data y, data ?xn, data d]) \<lparr>buf = length ?s2, dims = shape d\<rparr> = d"
      by (simp add: load_def nth_append)
    show ?thesis
      by (simp only: iterate_h.simps Inr a1 prod.case sum.case l1 a2 l2 l3 d a3 l4 Let_def)
  qed
qed

lemma iterate_h_sound:
  assumes "buf A < length s" and "buf x < length s"
    and "iterate_h k A eps x s = (res, s')"
  shows "prefix s s' \<and>
         (case res of
            Inl e \<Rightarrow> fst (iterate k (load s A) eps (load s x) c) = Inl e
          | Inr r \<Rightarrow> buf r < length s' \<and>
              fst (iterate k (load s A) eps (load s x) c) = Inr (load s' r) \<and>
              (k = 0 \<or> length s \<le> buf r))"
  using assms
proof (induction k arbitrary: x s c)
  case 0
  then show ?case by auto
next
  case (Suc k)
  note step = iterate_h_step[OF Suc.prems(1,2), of k eps]
  show ?case
  proof (cases "matmul (load s A) (load s x)")
    case (Inl e)
    with Suc.prems(3) step show ?thesis by auto
  next
    case (Inr y)
    let ?xn = "divide_scalar y (norm2 y)"
    let ?xr = "\<lparr>buf = Suc (length s), dims = shape y\<rparr>"
    show ?thesis
    proof (cases "elementwise fsub ?xn (load s x)")
      case (Inl e)
      with Suc.prems(3) step Inr show ?thesis by auto
    next
      case d: (Inr d)
      let ?s3 = "s @ [data y, data ?xn, data d]"
      have l: "load ?s3 ?xr = ?xn" "load ?s3 A = load s A" "buf ?xr < length ?s3"
        "buf A < length ?s3" "prefix s ?s3"
        using Suc.prems(1)
        by (simp_all add: load_def nth_append divide_scalar_def)
      show ?thesis
      proof (cases "fless (norm2 d) eps")
        case True
        with Suc.prems(3) step Inr d have "res = Inr ?xr" "s' = ?s3" by simp_all
        with l Inr d True show ?thesis by simp
      next
        case False
        with Suc.prems(3) step Inr d have it: "iterate_h k A eps ?xr ?s3 = (res, s')"
          by simp
        from Suc.IH[OF l(4,3) it, of "tick c (norm2 d)"]
        have ih: "prefix ?s3 s'"
          "case res of
             Inl e \<Rightarrow> fst (iterate k (load s A) eps ?xn (tick c (norm2 d))) = Inl e
           | Inr r \<Rightarrow> buf r < length s' \<and>
               fst (iterate k (load s A) eps ?xn (tick c (norm2 d))) = Inr (load s' r) \<and>
               (k = 0 \<or> length ?s3 \<le> buf r)"
          by (simp_all only: l(1,2))
        have pure: "iterate (Suc k) (load s A) eps (load s x) c
            = iterate k (load s A) eps ?xn (tick c (norm2 d))"
          using Inr d False by (rule iterate_continue)
        have pre: "prefix s s'"
          using l(5) ih(1) by (rule prefix_order.trans)
        have fresh: "length s \<le> buf r" if "res = Inr r" for r
        proof (cases k)
          case 0
          with it that have "r = ?xr" by simp
          then show ?thesis by simp
        next
          case (Suc j)
          with ih(2) that have "length ?s3 \<le> buf r" by simp
          then show ?thesis by simp
        qed
        from pre ih(2) pure fresh show ?thesis
          by (cases res) auto
      qed
    qed
  qed
qed

lemma rayleigh_max_h_sound:
  assumes "buf A < length s" and "buf x < length s"
    and "rayleigh_max_h A x s = (res, s')"
  shows "prefix s s' \<and> read_result (res, s') = fst (rayleigh_max (load s A) (load s x) c)"
proof (cases "matmul (load s A) (load s x)")
  case (Inl e)
  with assms(3) show ?thesis
    by (auto simp: rayleigh_max_h_def rayleigh_max_def alloc_result_def read_result_def)
next
  case (Inr q)
  let ?s1 = "s @ [data q]"
  have a1: "alloc_result (Inr q) s = (Inr \<lparr>buf = length s, dims = shape q\<rparr>, ?s1)"
    by (simp add: alloc_result_def alloc_def)
  have l1: "load ?s1 \<lparr>buf = length s, dims = shape q\<rparr> = q" "load ?s1 x = load s x"
    using assms(2) by (simp_all add: load_def nth_append)
  show ?thesis
  proof (cases "elementwise fdiv q (load s x)")
    case (Inl e)
    have "rayleigh_max_h A x s = (Inl e, ?s1)"
      by (simp only: rayleigh_max_h_def Inr a1 prod.case sum.case l1 Inl)
        (simp add: alloc_result_def)
    with assms(3) Inr Inl show ?thesis
      by (auto simp: rayleigh_max_def read_result_def)
  next
    case r: (Inr r)
    let ?s2 = "s @ [data q, data r]"
    have a2: "alloc_result (Inr r) ?s1 = (Inr \<lparr>buf = Suc (length s), dims = shape r\<rparr>, ?s2)"
      by (simp add: alloc_result_def alloc_def)
    have l2: "load ?s2 \<lparr>buf = Suc (length s), dims = shape r\<rparr> = r" "load ?s2 x = load s x"
      using assms(2) by (simp_all add: load_def nth_append)
    have "rayleigh_max_h A x s =
        (case np_max r of Inl e \<Rightarrow> (Inl e, ?s2) | Inr ev \<Rightarrow> (Inr (ev, x), ?s2))"
      by (simp only: rayleigh_max_h_def Inr a1 prod.case sum.case l1 r a2 l2)
    with assms(3) Inr r l2(2) show ?thesis
      by (auto simp: rayleigh_max_def read_result_def split: sum.splits)
  qed
qed

lemma load_squeeze_view: "load s (squeeze_view v) = np_squeeze (load s v)"
  by (simp add: load_def squeeze_view_def np_squeeze_def)

lemma init_x0_h_sound:
  assumes "init_x0_h A x0 s = (res, s')" and "\<forall>v. x0 = Some v \<longrightarrow> buf v < length s"
  shows "prefix s s' \<and>
         (case res of
            Inl e \<Rightarrow> init_x0 (load s A) (map_option (load s) x0) = Inl e
          | Inr r \<Rightarrow> buf r < length s' \<and>
              init_x0 (load s A) (map_option (load s) x0) = Inr (load s' r))"
proof (cases x0)
  case None
  with assms(1) show ?thesis
    by (auto simp: init_x0_h_def init_x0_def alloc_def load_def np_ones_def)
next
  case (Some v)
  with assms show ?thesis
    by (auto simp: init_x0_h_def init_x0_def Let_def squeeze_view_def np_squeeze_def
        load_def split: if_splits)
qed

lemma rayleigh_max_h_ref: "rayleigh_max_h A x s = (Inr (ev, r), s') \<Longrightarrow> r = x"
  by (auto simp: rayleigh_max_h_def split: prod.splits sum.splits)

lemma prefix_length: "prefix s s' \<Longrightarrow> n < length s \<Longrightarrow> n < length s'"
  by (auto simp: prefix_def)

lemma power_method_h_sound:
  assumes run: "power_method_h A x0 eps max_iter s = (res, s')"
    and A: "buf A < length s" and x0: "\<forall>v. x0 = Some v \<longrightarrow> buf v < length s"
  shows "prefix s s' \<and>
         read_result (res, s') = power_method (load s A) (map_option (load s) x0) eps max_iter \<and>
         (0 < max_iter \<longrightarrow> (\<forall>ev r. res = Inr (ev, r) \<longrightarrow> length s \<le> buf r))"
proof (cases "length (dims A) = 2")
  case False
  with run show ?thesis
    by (auto simp: power_method_h_def power_method_def power_method_st_def load_def
        read_result_def)
next
  case True
  then have two: "length (shape (load s A)) = 2" by (simp add: load_def)
  obtain r0 s1 where i: "init_x0_h A x0 s = (r0, s1)"
    by (cases "init_x0_h A x0 s")
  from init_x0_h_sound[OF i x0] have p1: "prefix s s1"
    and c1: "case r0 of
        Inl e \<Rightarrow> init_x0 (load s A) (map_option (load s) x0) = Inl e
      | Inr r \<Rightarrow> buf r < length s1 \<and>
          init_x0 (load s A) (map_option (load s) x0) = Inr (load s1 r)"
    by simp_all
  show ?thesis
  proof (cases r0)
    case (Inl e)
    with run True i have "res = Inl e" "s' = s1"
      by (simp_all add: power_method_h_def)
    with p1 c1 Inl two show ?thesis
      by (simp add: read_result_def power_method_def power_method_st_def)
  next
    case (Inr x)
    with c1 have x: "buf x < length s1"
      and ix: "init_x0 (load s A) (map_option (load s) x0) = Inr (load s1 x)"
      by simp_all
    have A1: "buf A < length s1" "load s1 A = load s A"
      using p1 A by (simp_all add: prefix_length load_prefix)
    obtain r2 s2 where it: "iterate_h (nat max_iter) A eps x s1 = (r2, s2)"
      by (cases "iterate_h (nat max_iter) A eps x s1")
    obtain p c where pure: "iterate (nat max_iter) (load s A) eps (load s1 x) c0 = (p, c)"
      by (cases "iterate (nat max_iter) (load s A) eps (load s1 x) c0")
    have fp: "fst (iterate (nat max_iter) (load s1 A) eps (load s1 x) c0) = p"
      using pure A1(2) by simp
    from iterate_h_sound[OF A1(1) x it, of c0]
    have p2: "prefix s1 s2"
      and c2: "case r2 of
          Inl e \<Rightarrow> p = Inl e
        | Inr r \<Rightarrow> buf r < length s2 \<and> p = Inr (load s2 r) \<and>
            (nat max_iter = 0 \<or> length s1 \<le> buf r)"
      unfolding fp by simp_all
    note st = power_method_st_run[OF two ix, of eps max_iter]
    show ?thesis
    proof (cases r2)
      case (Inl e)
      with run True i Inr it have "res = Inl e" "s' = s2"
        by (simp_all add: power_method_h_def)
      moreover from c2 Inl st pure
      have "power_method (load s A) (map_option (load s) x0) eps max_iter = Inl e"
        by (simp add: power_method_def)
      ultimately show ?thesis
        using p1 p2 by (auto simp: read_result_def)
    next
      case xi: (Inr xi)
      with c2 have xi2: "buf xi < length s2" "p = Inr (load s2 xi)"
        "nat max_iter = 0 \<or> length s1 \<le> buf xi"
        by simp_all
      from run True i Inr it xi have ray: "rayleigh_max_h A xi s2 = (res, s')"
        by (simp add: power_method_h_def)
      have A2: "buf A < length s2" "load s2 A = load s A"
        using p2 A1 by (simp_all add: prefix_length load_prefix)
      from rayleigh_max_h_sound[OF A2(1) xi2(1) ray, of c] A2(2)
      have p3: "prefix s2 s'"
        and rd: "read_result (res, s') = fst (rayleigh_max (load s A) (load s2 xi) c)"
        by simp_all
      have "power_method (load s A) (map_option (load s) x0) eps max_iter
          = fst (rayleigh_max (load s A) (load s2 xi) c)"
        using st pure xi2(2) by (simp add: power_method_def)
      moreover have "prefix s s'"
        using p1 p2 p3 by (blast intro: prefix_order.trans)
      moreover have "length s \<le> buf r" if "0 < max_iter" "res = Inr (ev, r)" for ev r
      proof -
        from ray that(2) have "r = xi" by (auto dest: rayleigh_max_h_ref)
        moreover from that(1) xi2(3) have "length s1 \<le> buf xi" by simp
        moreover from p1 have "length s \<le> length s1" by (auto simp: prefix_def)
        ultimately show ?thesis by simp
      qed
      ultimately show ?thesis
        using rd by auto
    qed
  qed
qed

text \<open>
  From a vector that one step reproduces the loop never moves, whatever the tolerance
  and the number of iterations; with finite entries and a positive tolerance it stops
  after the first iteration, on an error of exactly zero.
\<close>

lemma iterate_fixed_point:
  assumes "matmul A x = Inr y" and "divide_scalar y (norm2 y) = x"
  shows "fst (iterate k A eps x c) = Inr x"
proof (induction k arbitrary: c)
  case 0
  then show ?case by simp
next
  case (Suc k)
  have "shape x = [shape A ! 0]"
    using matmul_Inr(1)[OF assms(1)] assms(2) by (metis shape_divide_scalar)
  then obtain d where d: "elementwise fsub x x = Inr d"
    using elementwise_same[of x "shape A ! 0" x fsub] by simp
  show ?case
  proof (cases "fless (norm2 d) eps")
    case True
    with assms d show ?thesis
      by (simp add: iterate_converged)
  next
    case False
    with assms d Suc.IH show ?thesis
      by (simp add: iterate_continue)
  qed
qed

lemma fsub_self_fin: "is_fin v \<Longrightarrow> fsub v v = Fin 0"
  by (cases v) (simp_all add: fsub_def)

lemma norm2_self_difference:
  assumes "shape x = [n]" and "\<forall>v \<in> set (data x). is_fin v"
  obtains d where "elementwise fsub x x = Inr d" and "norm2 d = Fin 0"
proof -
  let ?d = "\<lparr>shape = [n], data = map2 fsub (data x) (data x)\<rparr>"
  have d: "elementwise fsub x x = Inr ?d"
    using assms(1) by (simp add: elementwise_same)
  have "map2 fsub (data x) (data x) = map (\<lambda>v. Fin 0) (data x)"
    using assms(2) by (induction "data x") (auto simp: zip_same_conv_map fsub_self_fin)
  then have "data ?d = map Fin (replicate (length (data x)) 0)"
    by (simp add: map_const_replicate)
  then have "norm2 ?d = Fin (sqrt (sumsq (replicate (length (data x)) 0)))"
    by (rule norm2_fin)
  moreover have "sumsq (replicate m 0) = 0" for m
    by (induction m) (simp_all add: sumsq_def)
  ultimately have "norm2 ?d = Fin 0" by simp
  with d show thesis by (rule that)
qed

lemma iterate_fixed_point_once:
  assumes "matmul A x = Inr y" and "divide_scalar y (norm2 y) = x"
    and "\<forall>v \<in> set (data x). is_fin v" and "fless (Fin 0) eps"
  shows "iterate (Suc k) A eps x c = (Inr x, tick c (Fin 0))"
proof -
  have "shape x = [shape A ! 0]"
    using matmul_Inr(1)[OF assms(1)] assms(2) by (metis shape_divide_scalar)
  then obtain d where d: "elementwise fsub x x = Inr d" "norm2 d = Fin 0"
    using assms(3) by (rule norm2_self_difference)
  have "iterate (Suc k) A eps x c = (Inr (divide_scalar y (norm2 y)), tick c (norm2 d))"
    using assms(1) by (rule iterate_converged) (simp_all only: assms(2) d assms(4))
  then show ?thesis
    by (simp only: assms(2) d(2))
qed

lemma not_fless_fsqrt: "0 \<le> b \<Longrightarrow> b * b \<le> s \<Longrightarrow> \<not> fless (fsqrt (Fin s)) (Fin b)"
proof -
  assume b: "0 \<le> b" and s: "b * b \<le> s"
  then have "0 \<le> s" by (meson mult_nonneg_nonneg order_trans)
  moreover from s have "b \<le> sqrt s"
    by (intro real_le_rsqrt) (simp add: power2_eq_square)
  ultimately show ?thesis by simp
qed

lemma nat_10000_twice: "nat 10000 = Suc (Suc 9998)"
  by simp

text \<open>
  A matrix that turns the unit vectors \<open>(4/5, 3/5)\<close>, \<open>(3/5, 4/5)\<close>, \<open>(-3/5, 4/5)\<close>,
  \<open>(-4/5, 3/5)\<close> into positive multiples of the next one, with the tolerance \<open>1/2\<close>.
  Started on the first, the loop stops after one iteration on the second, at a distance
  below \<open>1/2\<close>, with the eigenvalue 168. Started again on the second, the first iterate is
  the third, at the distance \<open>6/5\<close>, so the loop goes on and stops on the fourth, with the
  eigenvalue \<open>2253/4\<close>.
\<close>

lemma run_spiral_first:
  "power_method_st \<lparr>shape = [2, 2], data = [Fin 300, Fin (- 351), Fin (- 176), Fin 300]\<rparr>
     (Some \<lparr>shape = [2], data = [Fin (4 / 5), Fin (3 / 5)]\<rparr>) (Fin (1 / 2)) 10000
   = (Inr (Fin 168, \<lparr>shape = [2], data = [Fin (3 / 5), Fin (4 / 5)]\<rparr>),
      \<lparr>iters = 1, matvecs = 2, norms = 2,
       errs = [norm2 \<lparr>shape = [2], data = [Fin (- 1 / 5), Fin (1 / 5)]\<rparr>]\<rparr>) \<and>
   fless (norm2 \<lparr>shape = [2], data = [Fin (- 1 / 5), Fin (1 / 5)]\<rparr>) (Fin (1 / 2))"
proof -
  let ?A = "\<lparr>shape = [2, 2], data = [Fin 300, Fin (- 351), Fin (- 176), Fin 300]\<rparr>"
  let ?x = "\<lparr>shape = [2], data = [Fin (4 / 5), Fin (3 / 5)]\<rparr>"
  let ?y = "\<lparr>shape = [2], data = [Fin (147 / 5), Fin (196 / 5)]\<rparr>"
  let ?x1 = "\<lparr>shape = [2], data = [Fin (3 / 5), Fin (4 / 5)]\<rparr>"
  let ?d = "\<lparr>shape = [2], data = [Fin (- 1 / 5), Fin (1 / 5)]\<rparr>"
  have init: "init_x0 ?A (Some ?x) = Inr ?x"
    by (simp add: init_x0_def np_squeeze_def)
  have y: "matmul ?A ?x = Inr ?y"
    by (simp add: matmul_def dot_def rows_2_2)
  have "norm2 ?y = fsqrt (Fin (49 * 49))"
    by (simp add: norm2_def)
  also have "\<dots> = Fin 49"
    by (rule fsqrt_square) simp
  finally have n: "norm2 ?y = Fin 49" .
  have x1: "divide_scalar ?y (Fin 49) = ?x1"
    by (simp add: divide_scalar_def)
  have d: "elementwise fsub ?x1 ?x = Inr ?d"
    by (simp add: elementwise_def fsub_def)
  have "norm2 ?d = fsqrt (Fin (2 / 25))"
    by (simp add: norm2_def)
  moreover have "fless (fsqrt (Fin (2 / 25))) (Fin (1 / 2))"
    by (rule fless_fsqrt) simp_all
  ultimately have e: "fless (norm2 ?d) (Fin (1 / 2))" by simp
  have it: "iterate (nat 10000) ?A (Fin (1 / 2)) ?x c0 = (Inr ?x1, tick c0 (norm2 ?d))"
    using iterate_converged[of ?A ?x ?y ?d "Fin (1 / 2)" 9999 c0] y d e
    by (simp only: nat_10000 n x1)
  have r: "rayleigh_max ?A ?x1 c = (Inr (Fin 168, ?x1), c\<lparr>matvecs := matvecs c + 1\<rparr>)" for c
    by (simp add: rayleigh_max_def matmul_def dot_def rows_2_2 elementwise_def np_max_def
        fmaximum_def)
  have "power_method_st ?A (Some ?x) (Fin (1 / 2)) 10000
      = (Inr (Fin 168, ?x1), \<lparr>iters = 1, matvecs = 2, norms = 2, errs = [norm2 ?d]\<rparr>)"
    using power_method_st_run[of ?A "Some ?x" ?x "Fin (1 / 2)" 10000] init it r
    by (simp add: tick_def c0_def)
  with e show ?thesis by simp
qed

lemma run_spiral_second:
  "power_method_st \<lparr>shape = [2, 2], data = [Fin 300, Fin (- 351), Fin (- 176), Fin 300]\<rparr>
     (Some \<lparr>shape = [2], data = [Fin (3 / 5), Fin (4 / 5)]\<rparr>) (Fin (1 / 2)) 10000
   = (Inr (Fin (2253 / 4), \<lparr>shape = [2], data = [Fin (- 4 / 5), Fin (3 / 5)]\<rparr>),
      \<lparr>iters = 2, matvecs = 3, norms = 4,
       errs = [Fin (6 / 5), norm2 \<lparr>shape = [2], data = [Fin (- 1 / 5), Fin (- 1 / 5)]\<rparr>]\<rparr>) \<and>
   \<not> fless (Fin (6 / 5)) (Fin (1 / 2)) \<and>
   fless (norm2 \<lparr>shape = [2], data = [Fin (- 1 / 5), Fin (- 1 / 5)]\<rparr>) (Fin (1 / 2))"
proof -
  let ?A = "\<lparr>shape = [2, 2], data = [Fin 300, Fin (- 351), Fin (- 176), Fin 300]\<rparr>"
  let ?x1 = "\<lparr>shape = [2], data = [Fin (3 / 5), Fin (4 / 5)]\<rparr>"
  let ?y1 = "\<lparr>shape = [2], data = [Fin (- 504 / 5), Fin (672 / 5)]\<rparr>"
  let ?x2 = "\<lparr>shape = [2], data = [Fin (- 3 / 5), Fin (4 / 5)]\<rparr>"
  let ?d1 = "\<lparr>shape = [2], data = [Fin (- 6 / 5), Fin 0]\<rparr>"
  let ?y2 = "\<lparr>shape = [2], data = [Fin (- 2304 / 5), Fin (1728 / 5)]\<rparr>"
  let ?x3 = "\<lparr>shape = [2], data = [Fin (- 4 / 5), Fin (3 / 5)]\<rparr>"
  let ?d2 = "\<lparr>shape = [2], data = [Fin (- 1 / 5), Fin (- 1 / 5)]\<rparr>"
  have init: "init_x0 ?A (Some ?x1) = Inr ?x1"
    by (simp add: init_x0_def np_squeeze_def)
  have y1: "matmul ?A ?x1 = Inr ?y1"
    by (simp add: matmul_def dot_def rows_2_2)
  have "norm2 ?y1 = fsqrt (Fin (168 * 168))"
    by (simp add: norm2_def)
  also have "\<dots> = Fin 168"
    by (rule fsqrt_square) simp
  finally have n1: "norm2 ?y1 = Fin 168" .
  have x2: "divide_scalar ?y1 (Fin 168) = ?x2"
    by (simp add: divide_scalar_def)
  have d1: "elementwise fsub ?x2 ?x1 = Inr ?d1"
    by (simp add: elementwise_def fsub_def)
  have "norm2 ?d1 = fsqrt (Fin (6 / 5 * (6 / 5)))"
    by (simp add: norm2_def)
  also have "\<dots> = Fin (6 / 5)"
    by (rule fsqrt_square) simp
  finally have e1: "norm2 ?d1 = Fin (6 / 5)" .
  have far: "\<not> fless (Fin (6 / 5)) (Fin (1 / 2))" by simp
  have y2: "matmul ?A ?x2 = Inr ?y2"
    by (simp add: matmul_def dot_def rows_2_2)
  have "norm2 ?y2 = fsqrt (Fin (576 * 576))"
    by (simp add: norm2_def)
  also have "\<dots> = Fin 576"
    by (rule fsqrt_square) simp
  finally have n2: "norm2 ?y2 = Fin 576" .
  have x3: "divide_scalar ?y2 (Fin 576) = ?x3"
    by (simp add: divide_scalar_def)
  have d2: "elementwise fsub ?x3 ?x2 = Inr ?d2"
    by (simp add: elementwise_def fsub_def)
  have "norm2 ?d2 = fsqrt (Fin (2 / 25))"
    by (simp add: norm2_def)
  moreover have "fless (fsqrt (Fin (2 / 25))) (Fin (1 / 2))"
    by (rule fless_fsqrt) simp_all
  ultimately have e2: "fless (norm2 ?d2) (Fin (1 / 2))" by simp
  have d1': "elementwise fsub (divide_scalar ?y1 (norm2 ?y1)) ?x1 = Inr ?d1"
    by (simp only: n1 x2 d1)
  have far': "\<not> fless (norm2 ?d1) (Fin (1 / 2))"
    unfolding e1 by (rule far)
  have step1: "iterate (nat 10000) ?A (Fin (1 / 2)) ?x1 c0
      = iterate (Suc 9998) ?A (Fin (1 / 2)) ?x2 (tick c0 (Fin (6 / 5)))"
    using iterate_continue[OF y1 d1' far', of "Suc 9998" c0]
    by (simp only: nat_10000_twice n1 x2 e1)
  have step2: "iterate (Suc 9998) ?A (Fin (1 / 2)) ?x2 (tick c0 (Fin (6 / 5)))
      = (Inr ?x3, tick (tick c0 (Fin (6 / 5))) (norm2 ?d2))"
    using iterate_converged[of ?A ?x2 ?y2 ?d2 "Fin (1 / 2)" 9998 "tick c0 (Fin (6 / 5))"]
      y2 d2 e2
    by (simp only: n2 x3)
  have r: "rayleigh_max ?A ?x3 c = (Inr (Fin (2253 / 4), ?x3), c\<lparr>matvecs := matvecs c + 1\<rparr>)"
    for c
    by (simp add: rayleigh_max_def matmul_def dot_def rows_2_2 elementwise_def np_max_def
        fmaximum_def)
  have "power_method_st ?A (Some ?x1) (Fin (1 / 2)) 10000
      = (Inr (Fin (2253 / 4), ?x3),
         \<lparr>iters = 2, matvecs = 3, norms = 4, errs = [Fin (6 / 5), norm2 ?d2]\<rparr>)"
    using power_method_st_run[of ?A "Some ?x1" ?x1 "Fin (1 / 2)" 10000] init
      step1 step2 r
    by (simp add: tick_def c0_def)
  with far e2 show ?thesis by simp
qed

text \<open>
  The matrix \<open>(2)\<close> of dimension 1: the call with the default starting vector returns
  the eigenvalue 2 and the vector \<open>(1)\<close> after one iteration.
\<close>

lemma run_one_by_one:
  "power_method_st \<lparr>shape = [1, 1], data = [Fin 2]\<rparr> None (Fin (1 / 10 ^ 7)) 10000
   = (Inr (Fin 2, \<lparr>shape = [1], data = [Fin 1]\<rparr>),
      \<lparr>iters = 1, matvecs = 2, norms = 2, errs = [Fin 0]\<rparr>)"
proof -
  let ?A = "\<lparr>shape = [1, 1], data = [Fin 2]\<rparr>"
  let ?x = "\<lparr>shape = [1], data = [Fin 1]\<rparr>"
  let ?y = "\<lparr>shape = [1], data = [Fin 2]\<rparr>"
  let ?d = "\<lparr>shape = [1], data = [Fin 0]\<rparr>"
  have init: "init_x0 ?A None = Inr ?x"
    by (simp add: init_x0_def np_ones_def)
  have y: "matmul ?A ?x = Inr ?y"
    by (simp add: matmul_def dot_def rows_def)
  have n: "norm2 ?y = Fin 2"
    by (simp add: norm2_def)
  have x: "divide_scalar ?y (Fin 2) = ?x"
    by (simp add: divide_scalar_def)
  have d: "elementwise fsub ?x ?x = Inr ?d"
    by (simp add: elementwise_def fsub_def)
  have e: "norm2 ?d = Fin 0"
    by (simp add: norm2_def)
  have it: "iterate (nat 10000) ?A (Fin (1 / 10 ^ 7)) ?x c0 = (Inr ?x, tick c0 (Fin 0))"
    using iterate_converged[of ?A ?x ?y ?d "Fin (1 / 10 ^ 7)" 9999 c0] y d
    by (simp only: nat_10000 n x e) simp
  have r: "rayleigh_max ?A ?x c = (Inr (Fin 2, ?x), c\<lparr>matvecs := matvecs c + 1\<rparr>)" for c
    by (simp add: rayleigh_max_def matmul_def dot_def rows_def elementwise_def np_max_def)
  show ?thesis
    using power_method_st_run[of ?A None ?x "Fin (1 / 10 ^ 7)" 10000] init it r
    by (simp add: tick_def c0_def)
qed

text \<open>
  Twice the identity, started on \<open>(3, 4)\<close>: the first iterate \<open>(3/5, 4/5)\<close> is at the
  distance 4, the second iterate is the first, and the loop stops there.
\<close>

lemma run_scaled_identity_far:
  "power_method_st \<lparr>shape = [2, 2], data = [Fin 2, Fin 0, Fin 0, Fin 2]\<rparr>
     (Some \<lparr>shape = [2], data = [Fin 3, Fin 4]\<rparr>) (Fin (1 / 10 ^ 7)) 10000
   = (Inr (Fin 2, \<lparr>shape = [2], data = [Fin (3 / 5), Fin (4 / 5)]\<rparr>),
      \<lparr>iters = 2, matvecs = 3, norms = 4, errs = [Fin 4, Fin 0]\<rparr>)"
proof -
  let ?A = "\<lparr>shape = [2, 2], data = [Fin 2, Fin 0, Fin 0, Fin 2]\<rparr>"
  let ?x = "\<lparr>shape = [2], data = [Fin 3, Fin 4]\<rparr>"
  let ?y = "\<lparr>shape = [2], data = [Fin 6, Fin 8]\<rparr>"
  let ?x1 = "\<lparr>shape = [2], data = [Fin (3 / 5), Fin (4 / 5)]\<rparr>"
  let ?d = "\<lparr>shape = [2], data = [Fin (- 12 / 5), Fin (- 16 / 5)]\<rparr>"
  let ?y1 = "\<lparr>shape = [2], data = [Fin (6 / 5), Fin (8 / 5)]\<rparr>"
  have init: "init_x0 ?A (Some ?x) = Inr ?x"
    by (simp add: init_x0_def np_squeeze_def)
  have y: "matmul ?A ?x = Inr ?y"
    by (simp add: matmul_def dot_def rows_2_2)
  have "norm2 ?y = fsqrt (Fin (10 * 10))"
    by (simp add: norm2_def)
  also have "\<dots> = Fin 10"
    by (rule fsqrt_square) simp
  finally have n: "norm2 ?y = Fin 10" .
  have x1: "divide_scalar ?y (Fin 10) = ?x1"
    by (simp add: divide_scalar_def)
  have d: "elementwise fsub ?x1 ?x = Inr ?d"
    by (simp add: elementwise_def fsub_def)
  have "norm2 ?d = fsqrt (Fin (4 * 4))"
    by (simp add: norm2_def)
  also have "\<dots> = Fin 4"
    by (rule fsqrt_square) simp
  finally have e: "norm2 ?d = Fin 4" .
  have far: "\<not> fless (Fin 4) (Fin (1 / 10 ^ 7))" by simp
  have y1: "matmul ?A ?x1 = Inr ?y1"
    by (simp add: matmul_def dot_def rows_2_2)
  have "(36 :: real) / 25 + 64 / 25 = 4" by simp
  then have n1: "norm2 ?y1 = Fin 2"
    by (simp add: norm2_def)
  have fx: "divide_scalar ?y1 (norm2 ?y1) = ?x1"
    by (simp add: n1 divide_scalar_def)
  have d': "elementwise fsub (divide_scalar ?y (norm2 ?y)) ?x = Inr ?d"
    by (simp only: n x1 d)
  have far': "\<not> fless (norm2 ?d) (Fin (1 / 10 ^ 7))"
    unfolding e by (rule far)
  have step1: "iterate (nat 10000) ?A (Fin (1 / 10 ^ 7)) ?x c0
      = iterate (Suc 9998) ?A (Fin (1 / 10 ^ 7)) ?x1 (tick c0 (Fin 4))"
    using iterate_continue[OF y d' far', of "Suc 9998" c0]
    by (simp only: nat_10000_twice n x1 e)
  have step2: "iterate (Suc 9998) ?A (Fin (1 / 10 ^ 7)) ?x1 (tick c0 (Fin 4))
      = (Inr ?x1, tick (tick c0 (Fin 4)) (Fin 0))"
    using y1 fx by (rule iterate_fixed_point_once) simp_all
  have r: "rayleigh_max ?A ?x1 c = (Inr (Fin 2, ?x1), c\<lparr>matvecs := matvecs c + 1\<rparr>)" for c
    by (simp add: rayleigh_max_def y1 elementwise_def np_max_def fmaximum_def)
  show ?thesis
    using power_method_st_run[of ?A "Some ?x" ?x "Fin (1 / 10 ^ 7)" 10000] init
      step1 step2 r
    by (simp add: tick_def c0_def)
qed

text \<open>
  The zero matrix with the default starting vector: the first product is the zero
  vector, its norm is zero, the division gives NaN, and after 10000 iterations the call
  returns NaN with the vector of NaN, whose norm is NaN.
\<close>

lemma run_zero_matrix:
  "power_method \<lparr>shape = [2, 2], data = [Fin 0, Fin 0, Fin 0, Fin 0]\<rparr> None
     (Fin (1 / 10 ^ 7)) 10000 = Inr (NaN, nan_vector 2) \<and>
   norm2 (nan_vector 2) \<noteq> Fin 1"
proof -
  let ?A = "\<lparr>shape = [2, 2], data = [Fin 0, Fin 0, Fin 0, Fin 0]\<rparr>"
  let ?y = "\<lparr>shape = [2], data = [Fin 0, Fin 0]\<rparr>"
  have A: "shape ?A = [2, 2]" "length (data ?A) = 2 * 2" "0 < (2 :: nat)" by simp_all
  have y: "matmul ?A (np_ones 2) = Inr ?y" "norm2 ?y = Fin 0"
    by (simp_all add: matmul_def np_ones_def dot_def rows_2_2 norm2_def replicate_2)
  have "fst (iterate (Suc 9999) ?A (Fin (1 / 10 ^ 7)) (np_ones 2) c0) = Inr (nan_vector 2)"
    using A _ _ y by (rule iterate_zero_norm) (simp_all add: np_ones_def)
  then obtain c where "iterate (nat 10000) ?A (Fin (1 / 10 ^ 7)) (np_ones 2) c0
      = (Inr (nan_vector 2), c)"
    by (cases "iterate (nat 10000) ?A (Fin (1 / 10 ^ 7)) (np_ones 2) c0") simp
  moreover have "fst (rayleigh_max ?A (nan_vector 2) c) = Inr (NaN, nan_vector 2)"
    using A by (rule rayleigh_max_nan_vector)
  ultimately have "power_method ?A None (Fin (1 / 10 ^ 7)) 10000 = Inr (NaN, nan_vector 2)"
    by (simp add: power_method_def power_method_st_def init_x0_def)
  then show ?thesis
    by (simp add: norm2_nan_vector)
qed

section \<open>The claims\<close>

subsection \<open>C3: a matrix that is not square\<close>

text \<open>
  C3. A matrix with two axes of different extents is never explicitly rejected, but with
  a positive iteration cap (the cap the interface asks for) the call always ends in a
  shape error: after the first iteration the vector has as many entries as \<open>A\<close> has
  rows, so the next product \<^verbatim>\<open>A @ x\<close>, in the loop or after it, finds a mismatch, unless
  an earlier shape error (of \<open>x0\<close>, of the first product, of the subtraction) came first.
\<close>

theorem nonsquare_fails:
  assumes "length (shape A) = 2" and "shape A ! 0 \<noteq> shape A ! 1" and "0 < max_iter"
  shows "power_method A x0 eps max_iter
           \<in> {Inl X0BadShape, Inl MatmulMismatch, Inl BroadcastMismatch}"
proof (cases "init_x0 A x0")
  case (Inl e)
  with assms(1) init_x0_Inl[OF Inl] show ?thesis
    by (simp add: power_method_def power_method_st_def)
next
  case (Inr x)
  note run = power_method_st_run[OF assms(1) Inr, of eps max_iter]
  obtain r c where it: "iterate (nat max_iter) A eps x c0 = (r, c)"
    by (cases "iterate (nat max_iter) A eps x c0")
  show ?thesis
  proof (cases r)
    case (Inl e)
    with it iterate_Inl[of "nat max_iter" A eps x c0 e c] run show ?thesis
      by (auto simp: power_method_def)
  next
    case (Inr x')
    from assms(3) have "0 < nat max_iter" by simp
    with it Inr iterate_Inr[of "nat max_iter" A eps x c0 x' c]
    obtain xp y where "matmul A xp = Inr y" "x' = divide_scalar y (norm2 y)"
      by blast
    then have "shape x' = [shape A ! 0]"
      using matmul_Inr(1) by simp
    with assms(2) have "rayleigh_max A x' c = (Inl MatmulMismatch, c)"
      by (simp add: rayleigh_max_mismatch)
    with it Inr run show ?thesis
      by (simp add: power_method_def)
  qed
qed

theorem nonsquare_fails_witness:
  "length (shape \<lparr>shape = [1, 3], data = [Fin 1, Fin 2, Fin 3]\<rparr>) = 2 \<and>
   shape \<lparr>shape = [1, 3], data = [Fin 1, Fin 2, Fin 3]\<rparr> ! 0
     \<noteq> shape \<lparr>shape = [1, 3], data = [Fin 1, Fin 2, Fin 3]\<rparr> ! 1 \<and>
   (0 :: int) < 10000 \<and>
   power_method \<lparr>shape = [1, 3], data = [Fin 1, Fin 2, Fin 3]\<rparr> None (Fin (1 / 10 ^ 7)) 10000
     \<in> {Inl X0BadShape, Inl MatmulMismatch, Inl BroadcastMismatch}"
  using nonsquare_fails[of "\<lparr>shape = [1, 3], data = [Fin 1, Fin 2, Fin 3]\<rparr>" 10000 None
      "Fin (1 / 10 ^ 7)"]
  by simp

text \<open>
  The positive cap matters: with no iteration at all, a matrix of one row is broadcast
  against the starting vector and the call returns.
\<close>

lemma nonsquare_zero_iterations:
  "power_method \<lparr>shape = [1, 3], data = [Fin 1, Fin 2, Fin 3]\<rparr> None eps 0
     = Inr (Fin 6, np_ones 3)"
  by (simp add: power_method_def power_method_st_def init_x0_def np_ones_def c0_def
      rayleigh_max_def matmul_def rows_def dot_def elementwise_def stretch_def np_max_def
      fmaximum_def numeral_3_eq_3)

subsection \<open>C4: a starting vector of the wrong length\<close>

text \<open>
  C4. For a square matrix of dimension \<open>n\<close> and a given \<open>x0\<close> that squeezes to one axis
  of an extent other than \<open>n\<close>, the call raises the shape error of the first product
  \<^verbatim>\<open>A @ x\<close>, whatever \<open>eps\<close> and \<open>max_iter\<close> are: that product is the first operation
  both of the loop and of the lines after it.
\<close>

theorem x0_length_mismatch:
  assumes "shape A = [n, n]" and "shape (np_squeeze v) = [k]" and "k \<noteq> n"
  shows "power_method A (Some v) eps max_iter = Inl MatmulMismatch"
proof -
  have init: "init_x0 A (Some v) = Inr (np_squeeze v)"
    using assms(2) by (simp add: init_x0_def)
  have mm: "matmul A (np_squeeze v) = Inl MatmulMismatch"
    using assms by (simp add: matmul_mismatch)
  have "fst (iterate (nat max_iter) A eps (np_squeeze v) c0) = Inl MatmulMismatch
      \<or> iterate (nat max_iter) A eps (np_squeeze v) c0 = (Inr (np_squeeze v), c0)"
    using mm by (cases "nat max_iter") simp_all
  moreover have "rayleigh_max A (np_squeeze v) c0 = (Inl MatmulMismatch, c0)"
    using mm by (simp add: rayleigh_max_def)
  ultimately show ?thesis
    using assms(1) init
    by (auto simp: power_method_def power_method_st_def split: prod.splits sum.splits)
qed

theorem x0_length_mismatch_witness:
  "power_method \<lparr>shape = [2, 2], data = [Fin 2, Fin 0, Fin 0, Fin 1]\<rparr>
     (Some \<lparr>shape = [3, 1], data = [Fin 1, Fin 1, Fin 1]\<rparr>) (Fin (1 / 10 ^ 7)) 10000
   = Inl MatmulMismatch"
  using x0_length_mismatch[of "\<lparr>shape = [2, 2], data = [Fin 2, Fin 0, Fin 0, Fin 1]\<rparr>" 2
      "\<lparr>shape = [3, 1], data = [Fin 1, Fin 1, Fin 1]\<rparr>" 3 "Fin (1 / 10 ^ 7)" 10000]
  by (simp add: np_squeeze_def)

subsection \<open>C7: the two checks of the routine\<close>

text \<open>
  C7. The routine raises two errors of its own, both shape errors and both before
  anything else happens: when \<open>A\<close> has not exactly two axes, and when the squeezed \<open>x0\<close>
  has not exactly one. In both cases every ghost counter is still zero (no iteration, no
  product \<^verbatim>\<open>A @ x\<close>, no norm), whatever \<open>eps\<close> and \<open>max_iter\<close> are; and these two errors
  come from nowhere else: the call ends in the first exactly when \<open>A\<close> is not
  two-dimensional, and in the second exactly when \<open>A\<close> is two-dimensional and a given
  \<open>x0\<close> does not squeeze to one axis.
\<close>

theorem validation_errors:
  "(length (shape A) \<noteq> 2 \<longrightarrow>
      power_method_st A x0 eps max_iter = (Inl ANot2D, c0)) \<and>
   (length (shape A) = 2 \<and> length (shape (np_squeeze v)) \<noteq> 1 \<longrightarrow>
      power_method_st A (Some v) eps max_iter = (Inl X0BadShape, c0)) \<and>
   (power_method A x0 eps max_iter = Inl ANot2D \<longleftrightarrow> length (shape A) \<noteq> 2) \<and>
   (power_method A x0 eps max_iter = Inl X0BadShape \<longleftrightarrow>
      length (shape A) = 2 \<and> (\<exists>w. x0 = Some w \<and> length (shape (np_squeeze w)) \<noteq> 1)) \<and>
   iters c0 = 0 \<and> matvecs c0 = 0 \<and> norms c0 = 0 \<and> errs c0 = []"
proof (intro conjI impI)
  show "power_method A x0 eps max_iter = Inl ANot2D \<longleftrightarrow> length (shape A) \<noteq> 2"
  proof (cases "length (shape A) = 2")
    case False
    then show ?thesis by (simp add: power_method_def power_method_st_def)
  next
    case True
    show ?thesis
    proof (cases "init_x0 A x0")
      case (Inl e)
      with True init_x0_Inl[OF Inl] show ?thesis
        by (simp add: power_method_def power_method_st_def)
    next
      case (Inr x)
      with True power_method_not_validation_error(1)[OF True Inr] show ?thesis by simp
    qed
  qed
  show "power_method A x0 eps max_iter = Inl X0BadShape \<longleftrightarrow>
      length (shape A) = 2 \<and> (\<exists>w. x0 = Some w \<and> length (shape (np_squeeze w)) \<noteq> 1)"
  proof (cases "length (shape A) = 2")
    case False
    then show ?thesis by (simp add: power_method_def power_method_st_def)
  next
    case True
    show ?thesis
    proof (cases "init_x0 A x0")
      case (Inl e)
      with True init_x0_Inl[OF Inl] show ?thesis
        by (auto simp: power_method_def power_method_st_def init_x0_def Let_def
            split: option.splits if_splits)
    next
      case (Inr x)
      with True power_method_not_validation_error(2)[OF True Inr] show ?thesis
        by (auto simp: init_x0_def Let_def split: option.splits if_splits)
    qed
  qed
qed (simp_all add: power_method_st_def init_x0_def c0_zero)

theorem validation_errors_witness:
  "power_method_st \<lparr>shape = [3], data = [Fin 1, Fin 2, Fin 3]\<rparr> None (Fin (1 / 10 ^ 7)) 10000
     = (Inl ANot2D, c0) \<and>
   power_method_st \<lparr>shape = [1, 1], data = [Fin 5]\<rparr>
     (Some \<lparr>shape = [2, 2], data = [Fin 1, Fin 2, Fin 3, Fin 4]\<rparr>) (Fin (1 / 10 ^ 7)) 10000
     = (Inl X0BadShape, c0) \<and>
   power_method \<lparr>shape = [3], data = [Fin 1, Fin 2, Fin 3]\<rparr> None (Fin (1 / 10 ^ 7)) 10000
     = Inl ANot2D \<and>
   power_method \<lparr>shape = [1, 1], data = [Fin 5]\<rparr>
     (Some \<lparr>shape = [2, 2], data = [Fin 1, Fin 2, Fin 3, Fin 4]\<rparr>) (Fin (1 / 10 ^ 7)) 10000
     = Inl X0BadShape"
  using validation_errors[of "\<lparr>shape = [3], data = [Fin 1, Fin 2, Fin 3]\<rparr>" None
      "Fin (1 / 10 ^ 7)" 10000 undefined]
    validation_errors[of "\<lparr>shape = [1, 1], data = [Fin 5]\<rparr>"
      "Some \<lparr>shape = [2, 2], data = [Fin 1, Fin 2, Fin 3, Fin 4]\<rparr>"
      "Fin (1 / 10 ^ 7)" 10000 "\<lparr>shape = [2, 2], data = [Fin 1, Fin 2, Fin 3, Fin 4]\<rparr>"]
  by (simp add: np_squeeze_def)

subsection \<open>C10: which shapes of the starting vector pass\<close>

text \<open>
  C10. A given \<open>x0\<close> of any rank with exactly one axis of an extent \<open>n\<close> other than 1
  is squeezed to the vector of length \<open>n\<close> with the same elements and passes the check:
  so do a row \<open>(1, n)\<close> and a shape \<open>(n, 1, 1)\<close> for \<open>n \<noteq> 1\<close>, beyond the documented
  \<open>(n,)\<close> and \<open>(n, 1)\<close>. An array whose axes all have extent 1, a scalar without axes
  included, squeezes to no axis at all and is rejected with the shape error of line 41.
\<close>

theorem squeeze_accepts:
  "(filter (\<lambda>d. d \<noteq> 1) (shape v) = [n] \<longrightarrow>
      init_x0 A (Some v) = Inr \<lparr>shape = [n], data = data v\<rparr> \<and>
      (length (shape A) = 2 \<longrightarrow> power_method A (Some v) eps max_iter \<noteq> Inl X0BadShape)) \<and>
   (n \<noteq> 1 \<and> (shape v = [1, n] \<or> shape v = [n, 1, 1]) \<longrightarrow>
      filter (\<lambda>d. d \<noteq> 1) (shape v) = [n]) \<and>
   ((\<forall>d \<in> set (shape v). d = 1) \<longrightarrow>
      init_x0 A (Some v) = Inl X0BadShape \<and>
      (length (shape A) = 2 \<longrightarrow> power_method A (Some v) eps max_iter = Inl X0BadShape))"
proof (intro conjI impI)
  assume f: "filter (\<lambda>d. d \<noteq> 1) (shape v) = [n]"
  then show i: "init_x0 A (Some v) = Inr \<lparr>shape = [n], data = data v\<rparr>"
    by (simp add: init_x0_def np_squeeze_def)
  assume "length (shape A) = 2"
  from power_method_not_validation_error(2)[OF this i]
  show "power_method A (Some v) eps max_iter \<noteq> Inl X0BadShape" .
next
  assume "n \<noteq> 1 \<and> (shape v = [1, n] \<or> shape v = [n, 1, 1])"
  then show "filter (\<lambda>d. d \<noteq> 1) (shape v) = [n]" by auto
next
  assume a: "\<forall>d \<in> set (shape v). d = 1"
  then have "filter (\<lambda>d. d \<noteq> 1) (shape v) = []"
    by (simp add: filter_empty_conv)
  then show i: "init_x0 A (Some v) = Inl X0BadShape"
    by (simp add: init_x0_def np_squeeze_def)
  assume "length (shape A) = 2"
  with i show "power_method A (Some v) eps max_iter = Inl X0BadShape"
    by (simp add: power_method_def power_method_st_def)
qed

theorem squeeze_accepts_witness:
  "init_x0 \<lparr>shape = [3, 3], data = replicate 9 (Fin 1)\<rparr>
     (Some \<lparr>shape = [1, 3], data = [Fin 1, Fin 2, Fin 3]\<rparr>)
     = Inr \<lparr>shape = [3], data = [Fin 1, Fin 2, Fin 3]\<rparr> \<and>
   power_method \<lparr>shape = [3, 3], data = replicate 9 (Fin 1)\<rparr>
     (Some \<lparr>shape = [1, 3], data = [Fin 1, Fin 2, Fin 3]\<rparr>) (Fin (1 / 10 ^ 7)) 10000
     \<noteq> Inl X0BadShape \<and>
   init_x0 \<lparr>shape = [3, 3], data = replicate 9 (Fin 1)\<rparr>
     (Some \<lparr>shape = [3, 1, 1], data = [Fin 1, Fin 2, Fin 3]\<rparr>)
     = Inr \<lparr>shape = [3], data = [Fin 1, Fin 2, Fin 3]\<rparr> \<and>
   power_method \<lparr>shape = [3, 3], data = replicate 9 (Fin 1)\<rparr>
     (Some \<lparr>shape = [1, 1], data = [Fin 5]\<rparr>) (Fin (1 / 10 ^ 7)) 10000
     = Inl X0BadShape \<and>
   power_method \<lparr>shape = [3, 3], data = replicate 9 (Fin 1)\<rparr>
     (Some \<lparr>shape = [], data = [Fin 5]\<rparr>) (Fin (1 / 10 ^ 7)) 10000
     = Inl X0BadShape"
  using squeeze_accepts[of "\<lparr>shape = [1, 3], data = [Fin 1, Fin 2, Fin 3]\<rparr>" 3
      "\<lparr>shape = [3, 3], data = replicate 9 (Fin 1)\<rparr>" "Fin (1 / 10 ^ 7)" 10000]
    squeeze_accepts[of "\<lparr>shape = [3, 1, 1], data = [Fin 1, Fin 2, Fin 3]\<rparr>" 3
      "\<lparr>shape = [3, 3], data = replicate 9 (Fin 1)\<rparr>" "Fin (1 / 10 ^ 7)" 10000]
    squeeze_accepts[of "\<lparr>shape = [1, 1], data = [Fin 5]\<rparr>" 3
      "\<lparr>shape = [3, 3], data = replicate 9 (Fin 1)\<rparr>" "Fin (1 / 10 ^ 7)" 10000]
    squeeze_accepts[of "\<lparr>shape = [], data = [Fin 5]\<rparr>" 3
      "\<lparr>shape = [3, 3], data = replicate 9 (Fin 1)\<rparr>" "Fin (1 / 10 ^ 7)" 10000]
  by simp

subsection \<open>C1: the eigenvalue estimate\<close>

text \<open>
  C1, amended. A call that returns has computed, after the loop and whether the loop
  converged or ran to the cap, a product \<open>q = A @ x\<close> of its own on the final vector
  \<open>x\<close> (one product more than the loop made iterations), and returns with \<open>x\<close> the
  maximum \<^verbatim>\<open>np.max\<close> of \<open>q / x\<close> over all components. No component is left out: where
  \<open>x[i]\<close> is zero the ratio is an infinity or NaN, and a NaN is the maximum. For a
  square matrix and a vector \<open>x\<close> without a zero entry this is the maximum over the
  components with \<open>x[i] \<noteq> 0\<close> that the specification describes.
\<close>

theorem eigenvalue_is_max_ratio:
  assumes "power_method_st A x0 eps max_iter = (Inr (ev, x), c)"
  shows "\<exists>xi q r. init_x0 A x0 = Inr xi \<and>
           fst (iterate (nat max_iter) A eps xi c0) = Inr x \<and>
           matmul A x = Inr q \<and> elementwise fdiv q x = Inr r \<and> np_max r = Inr ev \<and>
           matvecs c = iters c + 1 \<and>
           (shape A ! 0 = shape A ! 1 \<longrightarrow>
              data r = map2 fdiv (data q) (data x) \<and>
              (Fin 0 \<notin> set (data x) \<longrightarrow> masked_max q x = Inr ev))"
proof -
  from assms obtain xi c1 q r where xi: "init_x0 A x0 = Inr xi"
    and it: "iterate (nat max_iter) A eps xi c0 = (Inr x, c1)"
    and q: "matmul A x = Inr q" and r: "elementwise fdiv q x = Inr r"
    and ev: "np_max r = Inr ev" and c: "c = c1\<lparr>matvecs := matvecs c1 + 1\<rparr>"
    by (rule power_method_st_InrE)
  from iterate_counters[OF it] c have mv: "matvecs c = iters c + 1"
    by (auto simp: c0_def)
  have sq: "data r = map2 fdiv (data q) (data x) \<and>
      (Fin 0 \<notin> set (data x) \<longrightarrow> masked_max q x = Inr ev)"
    if "shape A ! 0 = shape A ! 1"
  proof -
    from that matmul_Inr(1,4)[OF q] have s: "shape q = [shape A ! 0]" "shape x = [shape A ! 0]"
      by simp_all
    from elementwise_same[OF s, of fdiv] r
    have r': "r = \<lparr>shape = [shape A ! 0], data = map2 fdiv (data q) (data x)\<rparr>" by simp
    then have "data r = map2 fdiv (data q) (data x)" by simp
    moreover have "masked_max q x = Inr ev" if "Fin 0 \<notin> set (data x)"
      using masked_max_all[OF that, of q "[shape A ! 0]"] ev r' by simp
    ultimately show ?thesis by blast
  qed
  from xi it q r ev mv sq show ?thesis
    by (intro exI[of _ xi] exI[of _ q] exI[of _ r]) simp
qed

theorem eigenvalue_is_max_ratio_witness:
  "power_method_st \<lparr>shape = [2, 2], data = [Fin 2, Fin 0, Fin 0, Fin 2]\<rparr>
     (Some \<lparr>shape = [2], data = [Fin (3 / 5), Fin (4 / 5)]\<rparr>) (Fin (1 / 10 ^ 7)) 10000
   = (Inr (Fin 2, \<lparr>shape = [2], data = [Fin (3 / 5), Fin (4 / 5)]\<rparr>),
      \<lparr>iters = 1, matvecs = 2, norms = 2, errs = [Fin 0]\<rparr>) \<and>
   matmul \<lparr>shape = [2, 2], data = [Fin 2, Fin 0, Fin 0, Fin 2]\<rparr>
     \<lparr>shape = [2], data = [Fin (3 / 5), Fin (4 / 5)]\<rparr>
   = Inr \<lparr>shape = [2], data = [Fin (6 / 5), Fin (8 / 5)]\<rparr> \<and>
   masked_max \<lparr>shape = [2], data = [Fin (6 / 5), Fin (8 / 5)]\<rparr>
     \<lparr>shape = [2], data = [Fin (3 / 5), Fin (4 / 5)]\<rparr> = Inr (Fin 2)"
proof -
  from eigenvalue_is_max_ratio[OF run_scaled_identity]
  obtain q where "matmul \<lparr>shape = [2, 2], data = [Fin 2, Fin 0, Fin 0, Fin 2]\<rparr>
      \<lparr>shape = [2], data = [Fin (3 / 5), Fin (4 / 5)]\<rparr> = Inr q"
    and "masked_max q \<lparr>shape = [2], data = [Fin (3 / 5), Fin (4 / 5)]\<rparr> = Inr (Fin 2)"
    by auto
  then show ?thesis
    using run_scaled_identity by (simp add: matmul_def dot_def rows_2_2)
qed

text \<open>
  The claim as it stands fails where the final vector has a zero entry: for the diagonal
  matrix of 2 and 1 and the starting vector \<open>(1, 0)\<close> the maximum over the components
  with \<open>x[i] \<noteq> 0\<close> is 2, and the call returns NaN.
\<close>

theorem eigenvalue_is_max_ratio_counterexample:
  "power_method \<lparr>shape = [2, 2], data = [Fin 2, Fin 0, Fin 0, Fin 1]\<rparr>
     (Some \<lparr>shape = [2], data = [Fin 1, Fin 0]\<rparr>) (Fin (1 / 10 ^ 7)) 10000
   = Inr (NaN, \<lparr>shape = [2], data = [Fin 1, Fin 0]\<rparr>) \<and>
   matmul \<lparr>shape = [2, 2], data = [Fin 2, Fin 0, Fin 0, Fin 1]\<rparr>
     \<lparr>shape = [2], data = [Fin 1, Fin 0]\<rparr> = Inr \<lparr>shape = [2], data = [Fin 2, Fin 0]\<rparr> \<and>
   masked_max \<lparr>shape = [2], data = [Fin 2, Fin 0]\<rparr> \<lparr>shape = [2], data = [Fin 1, Fin 0]\<rparr>
   = Inr (Fin 2)"
  using run_diagonal
  by (simp add: power_method_def matmul_def dot_def rows_2_2 masked_max_def masked_ratios_def)

subsection \<open>C5: the iteration cap and convergence\<close>

text \<open>
  C5, amended. For a square matrix of dimension \<open>n \<ge> 1\<close> and a starting vector that is
  omitted or squeezes to \<open>n\<close> elements, the call always returns an eigenvalue and a
  vector, whatever the numbers are. The loop body was entered at most \<open>max_iter\<close> times;
  each entry computed one \<^verbatim>\<open>error\<close>; no \<^verbatim>\<open>error\<close> before the last one was below \<open>eps\<close>
  (the loop stops at the first that is); and when the loop made fewer than \<open>max_iter\<close>
  iterations its last \<^verbatim>\<open>error\<close> was below \<open>eps\<close>. Running to the cap is no error, and the
  returned pair has no component that tells the two ends of the loop apart.
\<close>

theorem loop_bounded_and_silent:
  assumes "shape A = [n, n]" and "0 < n" and "x0_fits n x0"
  shows "\<exists>ev x c. power_method_st A x0 eps max_iter = (Inr (ev, x), c) \<and>
           iters c \<le> nat max_iter \<and> length (errs c) = iters c \<and>
           (\<forall>e \<in> set (butlast (errs c)). \<not> fless e eps) \<and>
           (iters c < nat max_iter \<longrightarrow> errs c \<noteq> [] \<and> fless (last (errs c)) eps)"
proof -
  from power_method_square_returns[OF assms, of eps max_iter]
  obtain ev x c where run: "power_method_st A x0 eps max_iter = (Inr (ev, x), c)"
    by blast
  then obtain xi c1 where it: "iterate (nat max_iter) A eps xi c0 = (Inr x, c1)"
    and c: "c = c1\<lparr>matvecs := matvecs c1 + 1\<rparr>"
    by (rule power_method_st_InrE)
  from iterate_counters[OF it] obtain es where es: "length es \<le> nat max_iter"
    "iters c1 = iters c0 + length es" "errs c1 = errs c0 @ es"
    "\<forall>e \<in> set (butlast es). \<not> fless e eps"
    "length es < nat max_iter \<longrightarrow> es \<noteq> [] \<and> fless (last es) eps"
    by blast
  have "iters c = length es" "errs c = es"
    using es(2,3) c by (simp_all add: c0_def)
  with es(1,4,5) run show ?thesis by auto
qed

theorem loop_bounded_and_silent_witness:
  "shape \<lparr>shape = [2, 2], data = [Fin 2, Fin 0, Fin 0, Fin 2]\<rparr> = [2, 2] \<and> (0 :: nat) < 2 \<and>
   x0_fits 2 (Some \<lparr>shape = [2], data = [Fin (3 / 5), Fin (4 / 5)]\<rparr>) \<and>
   power_method_st \<lparr>shape = [2, 2], data = [Fin 2, Fin 0, Fin 0, Fin 2]\<rparr>
     (Some \<lparr>shape = [2], data = [Fin (3 / 5), Fin (4 / 5)]\<rparr>) (Fin (1 / 10 ^ 7)) 10000
   = (Inr (Fin 2, \<lparr>shape = [2], data = [Fin (3 / 5), Fin (4 / 5)]\<rparr>),
      \<lparr>iters = 1, matvecs = 2, norms = 2, errs = [Fin 0]\<rparr>) \<and>
   (1 :: nat) \<le> nat 10000 \<and> fless (Fin 0) (Fin (1 / 10 ^ 7))"
proof -
  have fits: "x0_fits 2 (Some \<lparr>shape = [2], data = [Fin (3 / 5), Fin (4 / 5)]\<rparr>)"
    by (simp add: x0_fits_def np_squeeze_def)
  from loop_bounded_and_silent[of "\<lparr>shape = [2, 2], data = [Fin 2, Fin 0, Fin 0, Fin 2]\<rparr>" 2
      "Some \<lparr>shape = [2], data = [Fin (3 / 5), Fin (4 / 5)]\<rparr>" "Fin (1 / 10 ^ 7)" 10000] fits
  have "fless (last [Fin 0]) (Fin (1 / 10 ^ 7))"
    using run_scaled_identity by auto
  with fits run_scaled_identity show ?thesis by simp
qed

text \<open>
  The claim as it stands promises a result whenever the two checks of the routine pass.
  A matrix of one row passes them; with a cap of one iteration the loop runs to the cap
  without convergence, and the call then raises.
\<close>

theorem loop_bounded_and_silent_counterexample:
  "length (shape \<lparr>shape = [1, 3], data = [Fin 1, Fin 0, Fin 0]\<rparr>) = 2 \<and>
   init_x0 \<lparr>shape = [1, 3], data = [Fin 1, Fin 0, Fin 0]\<rparr>
     (Some \<lparr>shape = [3], data = [Fin 2, Fin 0, Fin 0]\<rparr>)
   = Inr \<lparr>shape = [3], data = [Fin 2, Fin 0, Fin 0]\<rparr> \<and>
   power_method_st \<lparr>shape = [1, 3], data = [Fin 1, Fin 0, Fin 0]\<rparr>
     (Some \<lparr>shape = [3], data = [Fin 2, Fin 0, Fin 0]\<rparr>) (Fin (1 / 10 ^ 7)) 1
   = (Inl MatmulMismatch, \<lparr>iters = 1, matvecs = 1, norms = 2, errs = [Fin (sqrt 3)]\<rparr>) \<and>
   \<not> fless (Fin (sqrt 3)) (Fin (1 / 10 ^ 7))"
  using run_one_row sqrt_3_not_small
  by (simp add: init_x0_def np_squeeze_def)

subsection \<open>C6: divisions by zero\<close>



subsection \<open>C9: the arrays of the caller\<close>

text \<open>
  C9. Let the matrix and, when it is given, the starting vector be arrays of the caller,
  in buffers of the store before the call. After the call, whether it returns or
  raises, every buffer that was in the store holds the elements it held before: the
  store has only grown by new buffers, and the caller's \<open>A\<close> and \<open>x0\<close> read as before.
  The call over the store computes the value the routine over plain values computes,
  and with a positive iteration cap the vector it returns lies in a buffer made during
  the call, not in one of the caller's.
\<close>

theorem caller_arrays_unchanged:
  assumes "power_method_h A x0 eps max_iter s = (res, s')"
    and "buf A < length s" and "\<forall>v. x0 = Some v \<longrightarrow> buf v < length s"
  shows "length s \<le> length s' \<and> (\<forall>a < length s. s' ! a = s ! a) \<and>
         load s' A = load s A \<and> (\<forall>v. x0 = Some v \<longrightarrow> load s' v = load s v) \<and>
         read_result (res, s') = power_method (load s A) (map_option (load s) x0) eps max_iter \<and>
         (0 < max_iter \<longrightarrow> (\<forall>ev r. res = Inr (ev, r) \<longrightarrow> length s \<le> buf r))"
proof -
  from power_method_h_sound[OF assms]
  have p: "prefix s s'"
    and v: "read_result (res, s') = power_method (load s A) (map_option (load s) x0) eps max_iter"
    and f: "0 < max_iter \<longrightarrow> (\<forall>ev r. res = Inr (ev, r) \<longrightarrow> length s \<le> buf r)"
    by simp_all
  from p have "length s \<le> length s'" "\<forall>a < length s. s' ! a = s ! a"
    by (auto simp: prefix_def nth_append)
  moreover have "load s' A = load s A"
    using p assms(2) by (rule load_prefix)
  moreover have "\<forall>v. x0 = Some v \<longrightarrow> load s' v = load s v"
    using p assms(3) by (auto intro: load_prefix)
  ultimately show ?thesis
    using v f by blast
qed

theorem caller_arrays_unchanged_witness:
  "buf \<lparr>buf = 0, dims = [2, 2]\<rparr> < length [[Fin 2, Fin 0, Fin 0, Fin 2], [Fin (3 / 5), Fin (4 / 5)]] \<and>
   buf \<lparr>buf = 1, dims = [2]\<rparr> < length [[Fin 2, Fin 0, Fin 0, Fin 2], [Fin (3 / 5), Fin (4 / 5)]] \<and>
   load (snd (power_method_h \<lparr>buf = 0, dims = [2, 2]\<rparr> (Some \<lparr>buf = 1, dims = [2]\<rparr>)
       (Fin (1 / 10 ^ 7)) 10000 [[Fin 2, Fin 0, Fin 0, Fin 2], [Fin (3 / 5), Fin (4 / 5)]]))
     \<lparr>buf = 0, dims = [2, 2]\<rparr>
   = \<lparr>shape = [2, 2], data = [Fin 2, Fin 0, Fin 0, Fin 2]\<rparr> \<and>
   load (snd (power_method_h \<lparr>buf = 0, dims = [2, 2]\<rparr> (Some \<lparr>buf = 1, dims = [2]\<rparr>)
       (Fin (1 / 10 ^ 7)) 10000 [[Fin 2, Fin 0, Fin 0, Fin 2], [Fin (3 / 5), Fin (4 / 5)]]))
     \<lparr>buf = 1, dims = [2]\<rparr>
   = \<lparr>shape = [2], data = [Fin (3 / 5), Fin (4 / 5)]\<rparr> \<and>
   read_result (power_method_h \<lparr>buf = 0, dims = [2, 2]\<rparr> (Some \<lparr>buf = 1, dims = [2]\<rparr>)
       (Fin (1 / 10 ^ 7)) 10000 [[Fin 2, Fin 0, Fin 0, Fin 2], [Fin (3 / 5), Fin (4 / 5)]])
   = Inr (Fin 2, \<lparr>shape = [2], data = [Fin (3 / 5), Fin (4 / 5)]\<rparr>)"
proof -
  let ?s = "[[Fin 2, Fin 0, Fin 0, Fin 2], [Fin (3 / 5), Fin (4 / 5)]]"
  let ?A = "\<lparr>buf = 0, dims = [2, 2]\<rparr>"
  let ?v = "\<lparr>buf = 1, dims = [2]\<rparr>"
  let ?run = "power_method_h ?A (Some ?v) (Fin (1 / 10 ^ 7)) 10000 ?s"
  have lA: "load ?s ?A = \<lparr>shape = [2, 2], data = [Fin 2, Fin 0, Fin 0, Fin 2]\<rparr>"
    and lv: "load ?s ?v = \<lparr>shape = [2], data = [Fin (3 / 5), Fin (4 / 5)]\<rparr>"
    by (simp_all add: load_def)
  have pure: "power_method (load ?s ?A) (map_option (load ?s) (Some ?v)) (Fin (1 / 10 ^ 7)) 10000
      = Inr (Fin 2, \<lparr>shape = [2], data = [Fin (3 / 5), Fin (4 / 5)]\<rparr>)"
    unfolding lA option.map lv using run_scaled_identity by (simp add: power_method_def)
  have "?run = (fst ?run, snd ?run)" by simp
  from caller_arrays_unchanged[OF this] pure lA lv
  show ?thesis by simp
qed

subsection \<open>C8: running again from the returned vector\<close>




end
